theory Spec2Isabelle
  imports Main "HOL-Library.Word"
begin

unbundle bit_operations_syntax

section \<open>Bytes and Python sequence primitives\<close>

text \<open>
  A Python \<open>bytes\<close>/\<open>bytearray\<close> value is a list of 8-bit words.  Python's integers are
  unbounded, so every arithmetic expression the source builds from bytes (\<open>b << 8\<close>,
  \<open>a | b\<close>) is computed on \<open>nat\<close> after reading the byte with \<open>unat\<close>.
\<close>

type_synonym byte = "8 word"
type_synonym bytes = "byte list"

definition SYNC :: byte where
  "SYNC = 0xD3"

text \<open>\<open>buffer.index(v)\<close>: the position of the first \<open>v\<close>; \<open>None\<close> stands for the
  \<open>ValueError\<close> the source catches.\<close>

fun index_of :: "'a \<Rightarrow> 'a list \<Rightarrow> nat option" where
  "index_of v [] = None"
| "index_of v (x # xs) = (if x = v then Some 0 else map_option Suc (index_of v xs))"

section \<open>The RTCM3 frame decoder\<close>

text \<open>\<open>length = ((header[0] & 0x03) << 8) | header[1]\<close>\<close>

definition rtcm_length :: "byte \<Rightarrow> byte \<Rightarrow> nat" where
  "rtcm_length h0 h1 = (push_bit 8 (unat h0 AND 3)) OR unat h1"

text \<open>
  The inner \<open>while True\<close> loop of \<open>read_rtcm_stream\<close> (ntrip\_test.py) and of
  \<open>RTKRoverComplete.validate_rtcm_data\<close> (rtk\_rover\_complete.py).  The two loops are the
  same statement for statement except for what happens to the buffer when it holds no sync
  byte; that action is the parameter \<open>nosync\<close>.  The loop returns the frames it cut out of
  the buffer, in order, and the buffer it leaves behind; what each caller does with a frame
  (the statements after \<open>del buffer[: sync_index + frame_len]\<close>) does not touch the buffer
  and is applied to the returned frames afterwards.
\<close>

function rtcm_loop :: "(bytes \<Rightarrow> bytes) \<Rightarrow> bytes \<Rightarrow> bytes list \<times> bytes" where
  "rtcm_loop nosync buffer =
     (case index_of SYNC buffer of
        None \<Rightarrow> ([], nosync buffer)
      | Some sync_index \<Rightarrow>
          if length buffer - sync_index < 3
          then ([], if sync_index > 0 then drop sync_index buffer else buffer)
          else
            let len = rtcm_length (buffer ! (sync_index + 1)) (buffer ! (sync_index + 2));
                frame_len = 3 + len + 3
            in if length buffer - sync_index < frame_len
               then ([], if sync_index > 0 then drop sync_index buffer else buffer)
               else
                 let frame = take frame_len (drop sync_index buffer);
                     r = rtcm_loop nosync (drop (sync_index + frame_len) buffer)
                 in (frame # fst r, snd r))"
  by pat_completeness auto
termination
  by (relation "measure (\<lambda>(nosync, buffer). length buffer)") auto

text \<open>ntrip\_test.py: \<open>except ValueError: buffer.clear(); break\<close>\<close>

definition clear_buffer :: "bytes \<Rightarrow> bytes" where
  "clear_buffer buffer = []"

text \<open>rtk\_rover\_complete.py:
  \<open>except ValueError: if len(self.rtcm_buffer) > 1024: self.rtcm_buffer.clear(); break\<close>\<close>

definition clear_over_cap :: "bytes \<Rightarrow> bytes" where
  "clear_over_cap buffer = (if length buffer > 1024 then [] else buffer)"

text \<open>\<open>payload = frame[3:-3]\<close>\<close>

definition payload_of :: "bytes \<Rightarrow> bytes" where
  "payload_of frame = drop 3 (take (length frame - 3) frame)"

text \<open>\<open>((payload[0] << 4) | (payload[1] >> 4)) & 0x0FFF\<close>\<close>

definition msg_type_bits :: "byte \<Rightarrow> byte \<Rightarrow> nat" where
  "msg_type_bits p0 p1 = (push_bit 4 (unat p0) OR drop_bit 4 (unat p1)) AND 0x0FFF"

text \<open>\<open>parse_rtcm3_message_type\<close> of ntrip\_test.py; \<open>-1\<close> for a payload shorter than 2.\<close>

definition parse_rtcm3_message_type :: "bytes \<Rightarrow> int" where
  "parse_rtcm3_message_type payload =
     (if length payload < 2 then - 1
      else int (msg_type_bits (payload ! 0) (payload ! 1)))"

subsection \<open>The rover's decoder state\<close>

record rover =
  rtcm_buffer :: bytes
  rtcm_valid_frames :: nat
  rtcm_msg_types :: "nat set"
  rtcm_last_received_time :: "nat option"
  rtcm_first_frame_time :: "nat option"

text \<open>The fields as \<open>__init__\<close> sets them.\<close>

definition rover_init :: rover where
  "rover_init = \<lparr> rtcm_buffer = [], rtcm_valid_frames = 0, rtcm_msg_types = {},
                  rtcm_last_received_time = None, rtcm_first_frame_time = None \<rparr>"

text \<open>The statements of \<open>validate_rtcm_data\<close> under \<open># Validate frame (basic checks)\<close>,
  for one extracted frame.\<close>

definition account_frame :: "nat \<Rightarrow> bytes \<Rightarrow> rover \<Rightarrow> rover" where
  "account_frame current_time frame st =
     (if length frame \<ge> 6 then
        let payload = payload_of frame in
        if length payload \<ge> 2 then
          let msg_type = msg_type_bits (payload ! 0) (payload ! 1) in
          if msg_type > 0 then
            st \<lparr> rtcm_valid_frames := rtcm_valid_frames st + 1,
                 rtcm_msg_types := insert msg_type (rtcm_msg_types st),
                 rtcm_last_received_time := Some current_time,
                 rtcm_first_frame_time :=
                   (if rtcm_first_frame_time st = None then Some current_time
                    else rtcm_first_frame_time st) \<rparr>
          else st
        else st
      else st)"

text \<open>The frames one call of \<open>validate_rtcm_data\<close> extracts, in order.\<close>

definition validate_rtcm_frames :: "rover \<Rightarrow> bytes \<Rightarrow> bytes list" where
  "validate_rtcm_frames st data = fst (rtcm_loop clear_over_cap (rtcm_buffer st @ data))"

definition validate_rtcm_data :: "rover \<Rightarrow> nat \<Rightarrow> bytes \<Rightarrow> rover" where
  "validate_rtcm_data st current_time data =
     (let r = rtcm_loop clear_over_cap (rtcm_buffer st @ data)
      in fold (account_frame current_time) (fst r) (st \<lparr> rtcm_buffer := snd r \<rparr>))"

text \<open>Successive calls, one per received chunk with the clock reading of that call; the
  result is every frame extracted, in order, and the final state.\<close>

fun rover_feed :: "rover \<Rightarrow> (nat \<times> bytes) list \<Rightarrow> bytes list \<times> rover" where
  "rover_feed st [] = ([], st)"
| "rover_feed st ((t, data) # chunks) =
     (let r = rover_feed (validate_rtcm_data st t data) chunks
      in (validate_rtcm_frames st data @ fst r, snd r))"

subsection \<open>The stream reader of ntrip\_test.py\<close>

record reader =
  buffer :: bytes
  total_bytes :: nat
  msg_counts :: "int \<Rightarrow> nat"

text \<open>\<open>msg_type = parse_rtcm3_message_type(payload); if msg_type > 0:
  msg_counts[msg_type] += 1\<close> (a \<open>Counter\<close> reads 0 for a key it does not hold).\<close>

definition count_frame :: "bytes \<Rightarrow> reader \<Rightarrow> reader" where
  "count_frame frame st =
     (let payload = payload_of frame;
          msg_type = parse_rtcm3_message_type payload
      in if msg_type > 0
         then st \<lparr> msg_counts := (msg_counts st)(msg_type := msg_counts st msg_type + 1) \<rparr>
         else st)"

definition reader_init :: "bytes \<Rightarrow> reader" where
  "reader_init initial_data =
     \<lparr> buffer = initial_data, total_bytes = length initial_data, msg_counts = (\<lambda>_. 0) \<rparr>"

text \<open>One pass of the outer loop for a non-empty received chunk.\<close>

definition read_chunk_frames :: "reader \<Rightarrow> bytes \<Rightarrow> bytes list" where
  "read_chunk_frames st chunk = fst (rtcm_loop clear_buffer (buffer st @ chunk))"

definition read_chunk :: "reader \<Rightarrow> bytes \<Rightarrow> reader" where
  "read_chunk st chunk =
     (let r = rtcm_loop clear_buffer (buffer st @ chunk)
      in fold count_frame (fst r)
           (st \<lparr> buffer := snd r, total_bytes := total_bytes st + length chunk \<rparr>))"

fun reader_feed :: "reader \<Rightarrow> bytes list \<Rightarrow> bytes list \<times> reader" where
  "reader_feed st [] = ([], st)"
| "reader_feed st (chunk # chunks) =
     (let r = reader_feed (read_chunk st chunk) chunks
      in (read_chunk_frames st chunk @ fst r, snd r))"


section \<open>The chunked tunnel adapter\<close>

text \<open>The fields of a MAVLink \<open>SERIAL_CONTROL\<close> message, in the order
  \<open>serial_control_send\<close> takes them.\<close>

record serial_control =
  device :: nat
  flags :: nat
  timeout :: nat
  baudrate :: nat
  count :: nat
  data :: bytes

definition FLAG_REPLY :: nat where "FLAG_REPLY = 1"
definition FLAG_RESPOND :: nat where "FLAG_RESPOND = 2"
definition FLAG_EXCLUSIVE :: nat where "FLAG_EXCLUSIVE = 4"
definition FLAG_BLOCKING :: nat where "FLAG_BLOCKING = 8"
definition FLAG_MULTI :: nat where "FLAG_MULTI = 16"

text \<open>
  The \<open>while offset < len(data)\<close> loop of \<open>send_serial_bytes\<close> (rtk\_bridge.py; the copy
  in uPrecise\_forward.py is identical).  The result is the list of messages handed to
  \<open>mav.mav.serial_control_send\<close>, in transmission order; the pacing \<open>time.sleep(0.01)\<close>
  has no effect on them.
\<close>

function send_loop :: "nat \<Rightarrow> nat \<Rightarrow> bytes \<Rightarrow> nat \<Rightarrow> nat \<Rightarrow> serial_control list" where
  "send_loop dev fl payload baud offset =
     (if offset < length payload then
        let chunk = take 70 (drop offset payload);
            cnt = length chunk;
            chunk = (if cnt < 70 then chunk @ replicate (70 - cnt) 0 else chunk)
        in \<lparr> device = dev, flags = fl, timeout = 0, baudrate = baud, count = cnt,
             data = chunk \<rparr>
           # send_loop dev fl payload baud (offset + cnt)
      else [])"
  by pat_completeness auto
termination
  by (relation "measure (\<lambda>(dev, fl, payload, baud, offset). length payload - offset)") auto

definition send_serial_bytes :: "nat \<Rightarrow> bytes \<Rightarrow> nat \<Rightarrow> bool \<Rightarrow> serial_control list" where
  "send_serial_bytes dev payload baud exclusive =
     send_loop dev (if exclusive then FLAG_EXCLUSIVE else 0) payload baud 0"

text \<open>\<open>is_all_zero\<close>: the \<open>for\<close> loop returns \<open>False\<close> at the first non-zero byte.\<close>

fun is_all_zero :: "bytes \<Rightarrow> bool" where
  "is_all_zero [] = True"
| "is_all_zero (b # bs) = (if b \<noteq> 0 then False else is_all_zero bs)"

text \<open>
  One pass of \<open>gps2_to_tcp_loop\<close> (rtk\_bridge.py) over the result of \<open>recv_match\<close>
  (\<open>None\<close> when no message is waiting).  \<open>client\<close> tells whether the bridge holds a
  connected client; the result is the payload written to that client by
  \<open>bridge.send(data)\<close>, \<open>None\<close> when nothing is written.
\<close>

definition gps2_to_tcp_forward :: "nat \<Rightarrow> bool \<Rightarrow> serial_control option \<Rightarrow> bytes option" where
  "gps2_to_tcp_forward dev client msg =
     (case msg of
        None \<Rightarrow> None
      | Some m \<Rightarrow>
          if count m > 0 \<and> device m = dev then
            let payload = take (count m) (data m) in
            if \<not> is_all_zero payload
            then (if client then Some payload else None)
            else None
          else None)"

text \<open>
  The same pass of \<open>mavlink_loop\<close> (uPrecise\_forward.py): \<open>is_all_zero\<close> guards only the
  printing; \<open>client.sendall(data)\<close> runs for every matching message with a positive count.
\<close>

definition mavlink_loop_forward :: "nat \<Rightarrow> bool \<Rightarrow> serial_control option \<Rightarrow> bytes option" where
  "mavlink_loop_forward dev client msg =
     (case msg of
        None \<Rightarrow> None
      | Some m \<Rightarrow>
          if count m > 0 \<and> device m = dev then
            let payload = take (count m) (data m) in
            if client then Some payload else None
          else None)"

section \<open>The subscriber registry\<close>

text \<open>
  A socket object is known by its identity; \<open>addr\<close> is the \<open>(host, port)\<close> pair stored
  beside it.  The network records, for each socket, the data written to it so far (oldest
  first) and whether it has been closed.  \<open>fails s\<close> tells that \<open>s.sendall\<close> raises;
  a write that raises delivers nothing.
\<close>

type_synonym sock = nat
type_synonym addr = "string \<times> nat"

record net =
  sent :: "sock \<Rightarrow> bytes list"
  closed :: "sock set"

text \<open>The first \<open>for\<close> loop of \<open>ClientManager.broadcast\<close>: the result is the list
  \<open>disconnected\<close> and the network after the writes.\<close>

fun send_sweep ::
  "(sock \<Rightarrow> bool) \<Rightarrow> bytes \<Rightarrow> (sock \<times> addr) list \<Rightarrow> net \<Rightarrow> (sock \<times> addr) list \<times> net" where
  "send_sweep fails payload [] nw = ([], nw)"
| "send_sweep fails payload ((client_sock, a) # cs) nw =
     (if fails client_sock
      then (let r = send_sweep fails payload cs nw in ((client_sock, a) # fst r, snd r))
      else send_sweep fails payload cs
             (nw \<lparr> sent := (sent nw)(client_sock := sent nw client_sock @ [payload]) \<rparr>))"

text \<open>The second loop: \<open>self.clients.remove((client_sock, addr))\<close> deletes the first equal
  entry (a \<open>ValueError\<close> is passed over), then the socket is closed.\<close>

fun remove_disconnected ::
  "(sock \<times> addr) list \<Rightarrow> (sock \<times> addr) list \<times> net \<Rightarrow> (sock \<times> addr) list \<times> net" where
  "remove_disconnected [] (clients, nw) = (clients, nw)"
| "remove_disconnected ((client_sock, a) # ds) (clients, nw) =
     remove_disconnected ds
       (remove1 (client_sock, a) clients, nw \<lparr> closed := insert client_sock (closed nw) \<rparr>)"

definition broadcast ::
  "(sock \<Rightarrow> bool) \<Rightarrow> bytes \<Rightarrow> (sock \<times> addr) list \<times> net \<Rightarrow> (sock \<times> addr) list \<times> net" where
  "broadcast fails payload st =
     (let r = send_sweep fails payload (fst st) (snd st)
      in remove_disconnected (fst r) (fst st, snd r))"

text \<open>\<open>get_count\<close>\<close>

definition get_count :: "(sock \<times> addr) list \<times> net \<Rightarrow> nat" where
  "get_count st = length (fst st)"

section \<open>The NTRIP handshake\<close>

text \<open>
  The response header is a \<open>bytes\<close> value that the source decodes as ISO-8859-1, which
  maps byte \<open>n\<close> to code point \<open>n\<close>; both views are the same \<open>char list\<close> here
  (a \<open>char\<close> is one byte).
\<close>

text \<open>\<open>s.startswith(p)\<close>\<close>

fun startswith :: "'a list \<Rightarrow> 'a list \<Rightarrow> bool" where
  "startswith s [] = True"
| "startswith [] (p # ps) = False"
| "startswith (x # xs) (p # ps) = (x = p \<and> startswith xs ps)"

text \<open>\<open>s.find(sub)\<close>; \<open>None\<close> stands for the result \<open>-1\<close>.\<close>

fun find_sub :: "'a list \<Rightarrow> 'a list \<Rightarrow> nat option" where
  "find_sub [] sub = (if sub = [] then Some 0 else None)"
| "find_sub (x # xs) sub =
     (if startswith (x # xs) sub then Some 0 else map_option Suc (find_sub xs sub))"

text \<open>\<open>s.find(sub, start)\<close>\<close>

definition find_from :: "'a list \<Rightarrow> 'a list \<Rightarrow> nat \<Rightarrow> nat option" where
  "find_from s sub start =
     (if start > length s then None
      else map_option (\<lambda>i. start + i) (find_sub (drop start s) sub))"

text \<open>\<open>sub in s\<close>\<close>

definition contains :: "'a list \<Rightarrow> 'a list \<Rightarrow> bool" where
  "contains s sub \<longleftrightarrow> find_sub s sub \<noteq> None"

text \<open>\<open>s.split(sep, 1)[0]\<close>\<close>

definition split_first :: "'a list \<Rightarrow> 'a list \<Rightarrow> 'a list" where
  "split_first s sep = (case find_sub s sep of None \<Rightarrow> s | Some i \<Rightarrow> take i s)"

definition CRLF :: string where
  "CRLF = [CHR 0x0D, CHR 0x0A]"

definition LF :: string where
  "LF = [CHR 0x0A]"

definition CRLFCRLF :: string where
  "CRLFCRLF = CRLF @ CRLF"

definition SYNC_CHAR :: char where
  "SYNC_CHAR = CHR 0xD3"

datatype error = ConnectionError string | IndexError

text \<open>\<open>header[i] < 32 and header[i] not in (9, 10, 13)\<close>\<close>

definition is_control :: "char \<Rightarrow> bool" where
  "is_control c \<longleftrightarrow>
     (of_char c :: nat) < 32 \<and> (of_char c :: nat) \<noteq> 9 \<and> (of_char c :: nat) \<noteq> 10 \<and>
     (of_char c :: nat) \<noteq> 13"

text \<open>The \<open>for i in range(...)\<close> loop of \<open>check_response_header\<close> over the indices it
  visits; reading \<open>header[i]\<close> outside the buffer raises.\<close>

fun scan_control :: "string \<Rightarrow> nat list \<Rightarrow> error + nat option" where
  "scan_control header [] = Inr None"
| "scan_control header (i # is) =
     (if i < length header
      then (if is_control (header ! i) then Inr (Some i) else scan_control header is)
      else Inl IndexError)"

text \<open>The value of \<open>header_end\<close> when \<open>check_response_header\<close> (ntrip\_proxy.py) slices the
  buffer.\<close>

definition header_end_of :: "string \<Rightarrow> error + nat" where
  "header_end_of header =
     (case find_from header CRLFCRLF 0 of
        Some e \<Rightarrow> Inr (e + 4)
      | None \<Rightarrow>
         (let status_end = (case find_from header CRLF 0 of
                              None \<Rightarrow> find_from header LF 0
                            | Some e \<Rightarrow> Some e)
          in case status_end of
               None \<Rightarrow> Inr (length header)
             | Some status_end \<Rightarrow>
                (case find_from header [SYNC_CHAR] (status_end + 2) of
                   Some data_start \<Rightarrow> Inr data_start
                 | None \<Rightarrow>
                    (case scan_control header
                            [status_end + 2 ..< min (length header) (status_end + 200)] of
                       Inl e \<Rightarrow> Inl e
                     | Inr None \<Rightarrow> Inr (length header)
                     | Inr (Some i) \<Rightarrow> Inr i))))"

text \<open>The status line as \<open>check_response_header\<close> derives it from the header text.\<close>

definition status_line_of :: "string \<Rightarrow> string" where
  "status_line_of header_text =
     (let status_line = split_first header_text CRLF
      in if contains status_line LF \<and> \<not> contains status_line CRLF
         then split_first status_line LF
         else status_line)"

definition is_success :: "string \<Rightarrow> bool" where
  "is_success status_line \<longleftrightarrow>
     startswith status_line ''ICY 200'' \<or> contains status_line '' 200 ''"

definition auth_failed :: error where
  "auth_failed = ConnectionError ''Authentication failed (401/403). Check username/password.''"

definition mountpoint_not_found :: error where
  "mountpoint_not_found = ConnectionError ''Mountpoint not found (404). Check mountpoint name.''"

definition server_error :: error where
  "server_error = ConnectionError ''Server internal error (500).''"

definition unexpected_response :: "string \<Rightarrow> error" where
  "unexpected_response status_line =
     ConnectionError (''Unexpected response from server: '' @ status_line)"

definition check_response_header :: "string \<Rightarrow> error + string \<times> string" where
  "check_response_header header =
     (case header_end_of header of
        Inl e \<Rightarrow> Inl e
      | Inr header_end \<Rightarrow>
         (let header_text_part = take header_end header;
              binary_data_part = (if header_end < length header then drop header_end header
                                  else []);
              status_line = status_line_of header_text_part
          in if is_success status_line then Inr (header_text_part, binary_data_part)
             else if contains status_line ''401'' \<or> contains status_line ''403''
               then Inl auth_failed
             else if contains status_line ''404'' then Inl mountpoint_not_found
             else if contains status_line ''500'' then Inl server_error
             else Inl (unexpected_response status_line)))"

subsection \<open>The check in ntrip\_to\_rover.py\<close>

text \<open>
  \<open>connect_ntrip\<close> of ntrip\_to\_rover.py checks the response itself, after its read loop.
  \<open>to_rover_header_end\<close> is the value of \<open>header_end\<close> when the buffer is sliced:
  the marker, else the sync byte from \<open>status_end + 2\<close> on, else the end of the buffer.
\<close>

definition to_rover_header_end :: "string \<Rightarrow> nat" where
  "to_rover_header_end header =
     (case find_from header CRLFCRLF 0 of
        Some e \<Rightarrow> e + 4
      | None \<Rightarrow>
         (let status_end = (case find_from header CRLF 0 of
                              None \<Rightarrow> find_from header LF 0
                            | Some e \<Rightarrow> Some e)
          in case status_end of
               None \<Rightarrow> length header
             | Some status_end \<Rightarrow>
                (case find_from header [SYNC_CHAR] (status_end + 2) of
                   Some data_start \<Rightarrow> data_start
                 | None \<Rightarrow> length header)))"

text \<open>
  The statements of that \<open>connect_ntrip\<close> from \<open># Check response\<close> on.  The status line
  is cut from the whole buffer at the first CRLF only.  On success the function returns the
  socket and \<open>binary_data\<close>, the result here; otherwise it closes the socket and raises.
\<close>

definition connect_ntrip_to_rover :: "string \<Rightarrow> error + string" where
  "connect_ntrip_to_rover header =
     (let status_line = split_first header CRLF in
      if contains status_line ''ICY 200'' \<or> contains status_line '' 200 '' then
        (let header_end = to_rover_header_end header
         in Inr (if header_end < length header then drop header_end header else []))
      else if contains status_line ''401'' \<or> contains status_line ''403''
        then Inl auth_failed
      else if contains status_line ''404'' then Inl mountpoint_not_found
      else Inl (ConnectionError (''Unexpected response: '' @ status_line)))"

subsection \<open>Reading the response\<close>

text \<open>
  What one \<open>sock.recv(1024)\<close> does: it returns bytes (none when the peer has closed) or
  raises \<open>socket.timeout\<close>.  The socket's behaviour is the list of these outcomes; when
  the list is used up the peer has closed.
\<close>

datatype recv = Data string | Timeout

definition max_header :: nat where
  "max_header = 64 * 1024"

definition timed_out :: error where
  "timed_out = ConnectionError ''Timed out while waiting for NTRIP response header.''"

definition has_200 :: "string \<Rightarrow> bool" where
  "has_200 text \<longleftrightarrow> contains text ''ICY 200'' \<or> contains text '' 200 ''"

text \<open>
  The \<open>while len(header) < max_header\<close> loop of \<open>connect_ntrip\<close> (ntrip\_proxy.py).  The
  first component lists every value assigned to \<open>header\<close> by \<open>header += chunk\<close>, in
  order; the second is the header the loop ends with, or the error raised.
\<close>

fun read_loop :: "string \<Rightarrow> recv list \<Rightarrow> string list \<times> (error + string)" where
  "read_loop header [] = ([], Inr header)"
| "read_loop header (Timeout # script) =
     (if length header < max_header
      then (if has_200 header then ([], Inr header) else ([], Inl timed_out))
      else ([], Inr header))"
| "read_loop header (Data chunk # script) =
     (if length header < max_header then
        if chunk = [] then ([], Inr header)
        else
          let header = header @ chunk in
          if contains header CRLFCRLF then ([header], Inr header)
          else if has_200 header \<and> length header > 128 then ([header], Inr header)
          else (let r = read_loop header script in (header # fst r, snd r))
      else ([], Inr header))"

text \<open>\<open>header = b""\<close>, then the loop.\<close>

definition read_response :: "recv list \<Rightarrow> string list \<times> (error + string)" where
  "read_response script = (let r = read_loop [] script in ([] # fst r, snd r))"

section \<open>Vocabulary of the properties\<close>

text \<open>
  The definitions below are not part of the programs; the theorems are stated with them.
\<close>

subsection \<open>Decoder\<close>

text \<open>The buffer from its first sync byte on.\<close>

definition from_sync :: "bytes \<Rightarrow> bytes" where
  "from_sync b = dropWhile (\<lambda>x. x \<noteq> SYNC) b"

text \<open>What both no-sync actions have in common: they add no sync byte.\<close>

definition keeps_no_sync :: "(bytes \<Rightarrow> bytes) \<Rightarrow> bool" where
  "keeps_no_sync nosync \<longleftrightarrow> (\<forall>b. SYNC \<notin> set b \<longrightarrow> SYNC \<notin> set (nosync b))"

text \<open>The loop run on successive chunks, each appended to the buffer the previous run left.\<close>

fun loop_feed :: "(bytes \<Rightarrow> bytes) \<Rightarrow> bytes \<Rightarrow> bytes list \<Rightarrow> bytes list \<times> bytes" where
  "loop_feed ns buf [] = ([], buf)"
| "loop_feed ns buf (c # cs) =
     (let r = rtcm_loop ns (buf @ c); r' = loop_feed ns (snd r) cs
      in (fst r @ fst r', snd r'))"

text \<open>A well-formed frame: the sync byte, the two length bytes, as many payload bytes as
  they announce, and three trailer bytes.\<close>

definition well_formed_frame :: "bytes \<Rightarrow> bool" where
  "well_formed_frame f \<longleftrightarrow>
     3 \<le> length f \<and> hd f = SYNC \<and> length f = 3 + rtcm_length (f ! 1) (f ! 2) + 3"

text \<open>Frames, each followed by its noise, joined into one byte sequence.\<close>

fun interleaved :: "(bytes \<times> bytes) list \<Rightarrow> bytes" where
  "interleaved [] = []"
| "interleaved ((f, n) # fns) = f @ n @ interleaved fns"

definition well_formed_stream :: "bytes \<Rightarrow> (bytes \<times> bytes) list \<Rightarrow> bool" where
  "well_formed_stream n0 fns \<longleftrightarrow>
     SYNC \<notin> set n0 \<and> list_all (\<lambda>(f, n). well_formed_frame f \<and> SYNC \<notin> set n) fns"

text \<open>A no-sync action that keeps at most 1024 bytes.\<close>

definition caps_garbage :: "(bytes \<Rightarrow> bytes) \<Rightarrow> bool" where
  "caps_garbage nosync \<longleftrightarrow>
     (\<forall>b. SYNC \<notin> set b \<longrightarrow> SYNC \<notin> set (nosync b) \<and> length (nosync b) \<le> 1024)"

text \<open>The bound on a retained buffer: unsynced garbage of at most 1024 bytes, or a frame in
  flight that starts at the sync byte.\<close>

definition buffer_bounded :: "bytes \<Rightarrow> bool" where
  "buffer_bounded b \<longleftrightarrow>
     (SYNC \<notin> set b \<and> length b \<le> 1024) \<or>
     (b \<noteq> [] \<and> hd b = SYNC \<and> length b < 1029 \<and>
      (length b < 3 \<or> length b < 3 + rtcm_length (b ! 1) (b ! 2) + 3))"

text \<open>A frame with a usable message type, and that type.\<close>

definition typed_frame :: "bytes \<Rightarrow> bool" where
  "typed_frame frame \<longleftrightarrow>
     2 \<le> length (payload_of frame) \<and>
     0 < msg_type_bits (payload_of frame ! 0) (payload_of frame ! 1)"

definition frame_type :: "bytes \<Rightarrow> nat" where
  "frame_type frame = msg_type_bits (payload_of frame ! 0) (payload_of frame ! 1)"

subsection \<open>Handshake\<close>

text \<open>\<open>sub\<close> occurs in \<open>s\<close> at position \<open>i\<close>; its first occurrence at or after \<open>lo\<close>;
  no occurrence at or after \<open>lo\<close>.\<close>

definition occurs_at :: "'a list \<Rightarrow> 'a list \<Rightarrow> nat \<Rightarrow> bool" where
  "occurs_at s sub i \<longleftrightarrow> i + length sub \<le> length s \<and> take (length sub) (drop i s) = sub"

definition first_at :: "'a list \<Rightarrow> 'a list \<Rightarrow> nat \<Rightarrow> nat \<Rightarrow> bool" where
  "first_at s sub lo i \<longleftrightarrow>
     lo \<le> i \<and> occurs_at s sub i \<and> (\<forall>j. lo \<le> j \<and> j < i \<longrightarrow> \<not> occurs_at s sub j)"

definition absent_from :: "'a list \<Rightarrow> 'a list \<Rightarrow> nat \<Rightarrow> bool" where
  "absent_from s sub lo \<longleftrightarrow> (\<forall>j. lo \<le> j \<longrightarrow> \<not> occurs_at s sub j)"

text \<open>The first control byte of \<open>s\<close> among the positions \<open>lo\<close> up to \<open>hi - 1\<close>; no control
  byte among them.\<close>

definition first_control :: "string \<Rightarrow> nat \<Rightarrow> nat \<Rightarrow> nat \<Rightarrow> bool" where
  "first_control s lo hi c \<longleftrightarrow>
     lo \<le> c \<and> c < hi \<and> c < length s \<and> is_control (s ! c) \<and>
     (\<forall>j. lo \<le> j \<and> j < c \<longrightarrow> \<not> is_control (s ! j))"

definition no_control :: "string \<Rightarrow> nat \<Rightarrow> nat \<Rightarrow> bool" where
  "no_control s lo hi \<longleftrightarrow> (\<forall>j. lo \<le> j \<and> j < hi \<and> j < length s \<longrightarrow> \<not> is_control (s ! j))"

text \<open>
  The end of the first line at position \<open>s\<close>: the first CRLF, or, in a buffer with no
  CRLF, the first LF when the byte after it is neither a sync byte nor a control byte.
  Both functions go on from \<open>s + 2\<close>; under this condition no byte they would have to
  look at lies before \<open>s + 2\<close>.
\<close>

definition line_end :: "string \<Rightarrow> nat \<Rightarrow> bool" where
  "line_end h s \<longleftrightarrow>
     first_at h CRLF 0 s \<or>
     (absent_from h CRLF 0 \<and> first_at h LF 0 s \<and>
      (s + 1 < length h \<longrightarrow> h ! (s + 1) \<noteq> SYNC_CHAR \<and> \<not> is_control (h ! (s + 1))))"

text \<open>The status line \<open>check_response_header\<close> classifies.\<close>

definition status_line :: "string \<Rightarrow> string" where
  "status_line header =
     (case header_end_of header of
        Inl e \<Rightarrow> []
      | Inr header_end \<Rightarrow> status_line_of (take header_end header))"

section \<open>Properties of the frame decoder\<close>

lemma index_of_None_iff: "index_of v xs = None \<longleftrightarrow> v \<notin> set xs"
  by (induction xs) auto

lemma index_of_SomeD:
  "index_of v xs = Some i \<Longrightarrow> i < length xs \<and> xs ! i = v \<and> v \<notin> set (take i xs)"
  by (induction xs arbitrary: i) (auto split: if_splits)

lemma index_of_from:
  "index_of v xs = Some i \<Longrightarrow> dropWhile (\<lambda>x. x \<noteq> v) xs = drop i xs"
  by (induction xs arbitrary: i) (auto split: if_splits)

lemma index_of_hd: "xs \<noteq> [] \<Longrightarrow> hd xs = v \<Longrightarrow> index_of v xs = Some 0"
  by (cases xs) auto

lemma index_of_drop: "index_of v xs = Some i \<Longrightarrow> index_of v (drop i xs) = Some 0"
  by (induction xs arbitrary: i) (auto split: if_splits)

lemma index_of_append_left:
  "index_of v xs = Some i \<Longrightarrow> index_of v (xs @ ys) = Some i"
  by (induction xs arbitrary: i) (auto split: if_splits)

declare rtcm_loop.simps [simp del]

lemma loop_nosync:
  "index_of SYNC b = None \<Longrightarrow> rtcm_loop ns b = ([], ns b)"
  by (subst rtcm_loop.simps) simp

lemma loop_short:
  "index_of SYNC b = Some i \<Longrightarrow> length b - i < 3 \<Longrightarrow> rtcm_loop ns b = ([], drop i b)"
  by (subst rtcm_loop.simps) simp

lemma loop_wait:
  "index_of SYNC b = Some i \<Longrightarrow> \<not> length b - i < 3 \<Longrightarrow>
   length b - i < 3 + rtcm_length (b ! (i + 1)) (b ! (i + 2)) + 3 \<Longrightarrow>
   rtcm_loop ns b = ([], drop i b)"
  by (subst rtcm_loop.simps) (simp add: Let_def)

lemma loop_frame:
  "index_of SYNC b = Some i \<Longrightarrow> \<not> length b - i < 3 \<Longrightarrow>
   fl = 3 + rtcm_length (b ! (i + 1)) (b ! (i + 2)) + 3 \<Longrightarrow> \<not> length b - i < fl \<Longrightarrow>
   rtcm_loop ns b =
     (take fl (drop i b) # fst (rtcm_loop ns (drop (i + fl) b)),
      snd (rtcm_loop ns (drop (i + fl) b)))"
  by (subst rtcm_loop.simps) (simp add: Let_def)

lemma loop_drop_index:
  assumes "index_of SYNC b = Some i"
  shows "rtcm_loop ns b = rtcm_loop ns (drop i b)"
proof -
  have i: "i < length b" using assms by (simp add: index_of_SomeD)
  have z: "index_of SYNC (drop i b) = Some 0" using assms by (rule index_of_drop)
  have n1: "drop i b ! 1 = b ! (i + 1)" and n2: "drop i b ! 2 = b ! (i + 2)"
    using i by simp_all
  show ?thesis
    apply (subst rtcm_loop.simps)
    apply (subst (2) rtcm_loop.simps)
    using i n1 n2 by (simp add: assms z Let_def add.commute)
qed

lemma loop_from_sync_Some:
  "index_of SYNC b = Some i \<Longrightarrow> rtcm_loop ns b = rtcm_loop ns (from_sync b)"
  by (simp add: from_sync_def index_of_from loop_drop_index [symmetric])

lemma from_sync_no_sync: "SYNC \<notin> set b \<Longrightarrow> from_sync b = []"
  by (auto simp: from_sync_def)

lemma from_sync_append: "SYNC \<notin> set a \<Longrightarrow> from_sync (a @ b) = from_sync b"
  by (induction a) (auto simp: from_sync_def)

lemma from_sync_hd: "b \<noteq> [] \<Longrightarrow> hd b = SYNC \<Longrightarrow> from_sync b = b"
  by (cases b) (simp_all add: from_sync_def)

lemma loop_from_sync:
  "fst (rtcm_loop ns b) = fst (rtcm_loop ns (from_sync b))"
proof (cases "index_of SYNC b")
  case None
  then have "SYNC \<notin> set b" by (simp add: index_of_None_iff)
  then show ?thesis using None by (simp add: from_sync_no_sync loop_nosync)
next
  case (Some i)
  then show ?thesis by (simp add: loop_from_sync_Some [symmetric])
qed

lemma loop_append:
  assumes ns: "keeps_no_sync ns"
  shows "fst (rtcm_loop ns (a @ b)) =
           fst (rtcm_loop ns a) @ fst (rtcm_loop ns (snd (rtcm_loop ns a) @ b))"
proof (induction "length a" arbitrary: a rule: less_induct)
  case less
  show ?case
  proof (cases "index_of SYNC a")
    case None
    then have na: "SYNC \<notin> set a" by (simp add: index_of_None_iff)
    then have nk: "SYNC \<notin> set (ns a)" using ns by (simp add: keeps_no_sync_def)
    have l: "rtcm_loop ns a = ([], ns a)" using None by (rule loop_nosync)
    have "fst (rtcm_loop ns (a @ b)) = fst (rtcm_loop ns (from_sync b))"
      using loop_from_sync [of ns "a @ b"] na by (simp add: from_sync_append)
    moreover have "fst (rtcm_loop ns (ns a @ b)) = fst (rtcm_loop ns (from_sync b))"
      using loop_from_sync [of ns "ns a @ b"] nk by (simp add: from_sync_append)
    ultimately show ?thesis by (simp add: l)
  next
    case (Some i)
    then have i: "i < length a" by (simp add: index_of_SomeD)
    have ab: "index_of SYNC (a @ b) = Some i" using Some by (rule index_of_append_left)
    have d: "drop i (a @ b) = drop i a @ b" using i by simp
    have whole: "rtcm_loop ns (a @ b) = rtcm_loop ns (drop i a @ b)"
      using loop_drop_index [OF ab] d by simp
    define fl where "fl = 3 + rtcm_length (a ! (i + 1)) (a ! (i + 2)) + 3"
    consider (short) "length a - i < 3"
      | (wait) "\<not> length a - i < 3" "length a - i < fl"
      | (frame) "\<not> length a - i < 3" "\<not> length a - i < fl"
      by blast
    then show ?thesis
    proof cases
      case short
      then have "rtcm_loop ns a = ([], drop i a)" using Some by (simp add: loop_short)
      then show ?thesis using whole by simp
    next
      case wait
      then have "rtcm_loop ns a = ([], drop i a)"
        using Some unfolding fl_def by (intro loop_wait) simp_all
      then show ?thesis using whole by simp
    next
      case frame
      define a' where "a' = drop (i + fl) a"
      have la: "rtcm_loop ns a =
          (take fl (drop i a) # fst (rtcm_loop ns a'), snd (rtcm_loop ns a'))"
        unfolding a'_def using Some frame(1) fl_def frame(2) by (rule loop_frame)
      have n: "(a @ b) ! (i + 1) = a ! (i + 1)" "(a @ b) ! (i + 2) = a ! (i + 2)"
        using frame(1) by (auto simp: nth_append)
      have flab: "fl = 3 + rtcm_length ((a @ b) ! (i + 1)) ((a @ b) ! (i + 2)) + 3"
        unfolding n by (rule fl_def)
      have f1: "\<not> length (a @ b) - i < 3" using frame(1) by simp
      have f2: "\<not> length (a @ b) - i < fl" using frame(2) by simp
      have lab: "rtcm_loop ns (a @ b) =
          (take fl (drop i (a @ b)) # fst (rtcm_loop ns (drop (i + fl) (a @ b))),
           snd (rtcm_loop ns (drop (i + fl) (a @ b))))"
        using ab f1 flab f2 by (rule loop_frame)
      have le: "i + fl \<le> length a" using frame(2) i by arith
      have t: "take fl (drop i (a @ b)) = take fl (drop i a)"
        using le by simp
      have dr: "drop (i + fl) (a @ b) = a' @ b"
        unfolding a'_def using le by simp
      have "length a' < length a" unfolding a'_def fl_def using i by simp
      from less [OF this] show ?thesis
        unfolding la lab t dr by simp
    qed
  qed
qed

lemma loop_settled:
  assumes ns: "keeps_no_sync ns"
  shows "fst (rtcm_loop ns (snd (rtcm_loop ns a))) = []"
proof (induction "length a" arbitrary: a rule: less_induct)
  case less
  show ?case
  proof (cases "index_of SYNC a")
    case None
    then have "SYNC \<notin> set a" by (simp add: index_of_None_iff)
    then have "SYNC \<notin> set (ns a)" using ns by (simp add: keeps_no_sync_def)
    then have "index_of SYNC (ns a) = None" by (simp add: index_of_None_iff)
    then show ?thesis using None by (simp add: loop_nosync)
  next
    case (Some i)
    then have i: "i < length a" by (simp add: index_of_SomeD)
    define fl where "fl = 3 + rtcm_length (a ! (i + 1)) (a ! (i + 2)) + 3"
    have whole: "rtcm_loop ns (drop i a) = rtcm_loop ns a"
      using loop_drop_index [OF Some] by simp
    consider (short) "length a - i < 3"
      | (wait) "\<not> length a - i < 3" "length a - i < fl"
      | (frame) "\<not> length a - i < 3" "\<not> length a - i < fl"
      by blast
    then show ?thesis
    proof cases
      case short
      then have "rtcm_loop ns a = ([], drop i a)" using Some by (simp add: loop_short)
      then show ?thesis using whole by simp
    next
      case wait
      then have "rtcm_loop ns a = ([], drop i a)"
        using Some unfolding fl_def by (intro loop_wait) simp_all
      then show ?thesis using whole by simp
    next
      case frame
      define a' where "a' = drop (i + fl) a"
      have la: "rtcm_loop ns a =
          (take fl (drop i a) # fst (rtcm_loop ns a'), snd (rtcm_loop ns a'))"
        unfolding a'_def using Some frame(1) fl_def frame(2) by (rule loop_frame)
      have "length a' < length a" unfolding a'_def fl_def using i by simp
      from less [OF this] show ?thesis by (simp add: la)
    qed
  qed
qed

lemma loop_feed_concat:
  assumes ns: "keeps_no_sync ns"
  shows "fst (rtcm_loop ns buf) = [] \<Longrightarrow>
     fst (loop_feed ns buf cs) = fst (rtcm_loop ns (buf @ concat cs))"
proof (induction cs arbitrary: buf)
  case Nil
  then show ?case by simp
next
  case (Cons c cs)
  let ?r = "rtcm_loop ns (buf @ c)"
  have "fst (rtcm_loop ns (snd ?r)) = []" by (rule loop_settled [OF ns])
  from Cons.IH [OF this] loop_append [OF ns, of "buf @ c" "concat cs"]
  show ?case by (simp add: Let_def)
qed


lemma rtcm_length_le: "rtcm_length h0 h1 \<le> 1023"
proof -
  have a: "uint h0 AND 3 \<le> 3" by (rule AND_upper2) simp
  have b: "0 \<le> uint h0 AND 3" by simp
  have c: "push_bit 8 (uint h0 AND 3) < 2 ^ 10"
    using a by (simp add: push_bit_eq_mult)
  have "uint h1 < 2 ^ 8"
    using unsigned_less [of h1, where ?'a = int] by simp
  then have d: "uint h1 < 2 ^ 10" by simp
  have e: "0 \<le> push_bit 8 (uint h0 AND 3)" using b by simp
  have "push_bit 8 (uint h0 AND 3) OR uint h1 < 2 ^ 10"
    by (rule OR_upper [OF e c d])
  then have "int (rtcm_length h0 h1) < 1024"
    by (simp add: rtcm_length_def of_nat_or_eq of_nat_and_eq of_nat_push_bit)
  then show ?thesis by simp
qed

lemma keeps_clear_buffer: "keeps_no_sync clear_buffer"
  by (simp add: keeps_no_sync_def clear_buffer_def)

lemma keeps_clear_over_cap: "keeps_no_sync clear_over_cap"
  by (simp add: keeps_no_sync_def clear_over_cap_def)

lemma caps_clear_buffer: "caps_garbage clear_buffer"
  by (simp add: caps_garbage_def clear_buffer_def)

lemma caps_clear_over_cap: "caps_garbage clear_over_cap"
  by (simp add: caps_garbage_def clear_over_cap_def)

lemma loop_stream:
  assumes ns: "keeps_no_sync ns"
  shows "SYNC \<notin> set n0 \<Longrightarrow>
     list_all (\<lambda>(f, n). well_formed_frame f \<and> SYNC \<notin> set n) fns \<Longrightarrow>
     fst (rtcm_loop ns (n0 @ interleaved fns)) = map fst fns"
proof (induction fns arbitrary: n0)
  case Nil
  then have "index_of SYNC n0 = None" by (simp add: index_of_None_iff)
  then show ?case by (simp add: loop_nosync)
next
  case (Cons fn fns)
  obtain f n where fn: "fn = (f, n)" by (cases fn)
  define rest where "rest = n @ interleaved fns"
  define X where "X = f @ rest"
  have wf: "well_formed_frame f" and nn: "SYNC \<notin> set n"
    and tl: "list_all (\<lambda>(f, n). well_formed_frame f \<and> SYNC \<notin> set n) fns"
    using Cons.prems(2) by (simp_all add: fn)
  have f3: "3 \<le> length f" and hf: "hd f = SYNC"
    and lf: "length f = 3 + rtcm_length (f ! 1) (f ! 2) + 3"
    using wf by (simp_all add: well_formed_frame_def)
  have fne: "f \<noteq> []" using f3 by auto
  have Xne: "X \<noteq> []" and hX: "hd X = SYNC" using fne hf by (simp_all add: X_def)
  have "fst (rtcm_loop ns (n0 @ X)) = fst (rtcm_loop ns (from_sync X))"
    using loop_from_sync [of ns "n0 @ X"] Cons.prems(1) by (simp add: from_sync_append)
  also have "from_sync X = X" using Xne hX by (rule from_sync_hd)
  finally have step1: "fst (rtcm_loop ns (n0 @ X)) = fst (rtcm_loop ns X)" .
  have ix: "index_of SYNC X = Some 0" using Xne hX by (rule index_of_hd)
  have n: "X ! (0 + 1) = f ! 1" "X ! (0 + 2) = f ! 2"
    using f3 by (auto simp: X_def nth_append numeral_2_eq_2)
  have fl: "length f = 3 + rtcm_length (X ! (0 + 1)) (X ! (0 + 2)) + 3"
    unfolding n by (rule lf)
  have g1: "\<not> length X - 0 < 3" using f3 by (simp add: X_def)
  have g2: "\<not> length X - 0 < length f" by (simp add: X_def)
  have "rtcm_loop ns X =
      (take (length f) (drop 0 X) # fst (rtcm_loop ns (drop (0 + length f) X)),
       snd (rtcm_loop ns (drop (0 + length f) X)))"
    using ix g1 fl g2 by (rule loop_frame)
  then have step2: "fst (rtcm_loop ns X) = f # fst (rtcm_loop ns rest)"
    by (simp add: X_def)
  have "fst (rtcm_loop ns rest) = map fst fns"
    unfolding rest_def using nn tl by (rule Cons.IH)
  then show ?case using step1 step2 by (simp add: fn X_def rest_def)
qed

lemma account_frame_buffer: "rtcm_buffer (account_frame t f st) = rtcm_buffer st"
  by (simp add: account_frame_def Let_def)

lemma fold_account_buffer: "rtcm_buffer (fold (account_frame t) fs st) = rtcm_buffer st"
  by (induction fs arbitrary: st) (simp_all add: account_frame_buffer)

lemma validate_buffer:
  "rtcm_buffer (validate_rtcm_data st t d) = snd (rtcm_loop clear_over_cap (rtcm_buffer st @ d))"
  by (simp add: validate_rtcm_data_def Let_def fold_account_buffer)

lemma count_frame_buffer: "buffer (count_frame f st) = buffer st"
  by (simp add: count_frame_def Let_def)

lemma fold_count_buffer: "buffer (fold count_frame fs st) = buffer st"
  by (induction fs arbitrary: st) (simp_all add: count_frame_buffer)

lemma read_chunk_buffer:
  "buffer (read_chunk st c) = snd (rtcm_loop clear_buffer (buffer st @ c))"
  by (simp add: read_chunk_def Let_def fold_count_buffer)

lemma rover_feed_loop_feed:
  "fst (rover_feed st tcs) = fst (loop_feed clear_over_cap (rtcm_buffer st) (map snd tcs))"
proof (induction tcs arbitrary: st)
  case Nil
  show ?case by simp
next
  case (Cons tc tcs)
  obtain t c where tc: "tc = (t, c)" by (cases tc)
  show ?case
    by (simp add: tc Let_def Cons.IH validate_buffer validate_rtcm_frames_def)
qed

lemma reader_feed_loop_feed:
  "fst (reader_feed st cs) = fst (loop_feed clear_buffer (buffer st) cs)"
  by (induction cs arbitrary: st)
     (simp_all add: Let_def read_chunk_buffer read_chunk_frames_def)

lemma loop_empty: "fst (rtcm_loop ns []) = []"
  by (simp add: loop_nosync)

lemma loop_bounded:
  assumes ns: "caps_garbage ns"
  shows "buffer_bounded (snd (rtcm_loop ns b))"
proof (induction "length b" arbitrary: b rule: less_induct)
  case less
  show ?case
  proof (cases "index_of SYNC b")
    case None
    then have "SYNC \<notin> set b" by (simp add: index_of_None_iff)
    then have "SYNC \<notin> set (ns b) \<and> length (ns b) \<le> 1024"
      using ns by (simp add: caps_garbage_def)
    then show ?thesis using None by (simp add: loop_nosync buffer_bounded_def)
  next
    case (Some i)
    then have i: "i < length b" and bi: "b ! i = SYNC" by (simp_all add: index_of_SomeD)
    define fl where "fl = 3 + rtcm_length (b ! (i + 1)) (b ! (i + 2)) + 3"
    have fl_le: "fl \<le> 1029" unfolding fl_def using rtcm_length_le [of "b ! (i + 1)" "b ! (i + 2)"] by simp
    have ne: "drop i b \<noteq> []" using i by simp
    have hd: "hd (drop i b) = SYNC" using i bi by (simp add: hd_drop_conv_nth)
    consider (short) "length b - i < 3"
      | (wait) "\<not> length b - i < 3" "length b - i < fl"
      | (frame) "\<not> length b - i < 3" "\<not> length b - i < fl"
      by blast
    then show ?thesis
    proof cases
      case short
      then have "rtcm_loop ns b = ([], drop i b)" using Some by (simp add: loop_short)
      then show ?thesis using ne hd short by (simp add: buffer_bounded_def)
    next
      case wait
      then have l: "rtcm_loop ns b = ([], drop i b)"
        using Some unfolding fl_def by (intro loop_wait) simp_all
      have n: "drop i b ! 1 = b ! (i + 1)" "drop i b ! 2 = b ! (i + 2)"
        using wait(1) by simp_all
      have "length (drop i b) < 3 + rtcm_length (drop i b ! 1) (drop i b ! 2) + 3"
        unfolding n using wait(2) by (simp add: fl_def)
      moreover have "length (drop i b) < 1029" using wait(2) fl_le by simp
      ultimately show ?thesis using ne hd unfolding l buffer_bounded_def by simp
    next
      case frame
      define b' where "b' = drop (i + fl) b"
      have lb: "rtcm_loop ns b =
          (take fl (drop i b) # fst (rtcm_loop ns b'), snd (rtcm_loop ns b'))"
        unfolding b'_def using Some frame(1) fl_def frame(2) by (rule loop_frame)
      have "length b' < length b" unfolding b'_def fl_def using i by simp
      from less [OF this] show ?thesis by (simp add: lb)
    qed
  qed
qed

text \<open>
  Claim C8 (decode-buffer bound).  When \<open>validate_rtcm_data\<close> returns, and after each
  pass of the stream reader over a received chunk, the retained buffer either holds no sync
  byte and at most 1024 bytes, or it begins with the sync byte (everything before it is
  gone) and is shorter than the frame it announces, \<open>3 + length + 3\<close> bytes, and so shorter
  than 1029 bytes; a buffer of fewer than 3 bytes has not announced a length yet.  This
  holds from any earlier state and for any input.
\<close>

theorem decode_buffer_bounded:
  "buffer_bounded (rtcm_buffer (validate_rtcm_data st current_time bs)) \<and>
   buffer_bounded (buffer (read_chunk rd chunk))"
  by (simp add: validate_buffer read_chunk_buffer
      loop_bounded [OF caps_clear_over_cap] loop_bounded [OF caps_clear_buffer])

theorem decode_buffer_bounded_witness:
  "rtcm_buffer (validate_rtcm_data rover_init 0 [1, 0xD3, 0, 5, 1]) = [0xD3, 0, 5, 1] \<and>
   buffer (read_chunk (reader_init []) [1, 2, 3]) = [] \<and>
   buffer_bounded (rtcm_buffer (validate_rtcm_data rover_init 0 [1, 0xD3, 0, 5, 1])) \<and>
   buffer_bounded (buffer (read_chunk (reader_init []) [1, 2, 3]))"
proof -
  have a: "rtcm_buffer (validate_rtcm_data rover_init 0 [1, 0xD3, 0, 5, 1]) = [0xD3, 0, 5, 1]"
    by code_simp
  have b: "buffer (read_chunk (reader_init []) [1, 2, 3]) = []"
    by code_simp
  from decode_buffer_bounded [of rover_init 0 "[1, 0xD3, 0, 5, 1]" "reader_init []" "[1, 2, 3]"]
    a b show ?thesis by simp
qed

lemma loop_frames_length:
  "f \<in> set (fst (rtcm_loop ns b)) \<Longrightarrow> 6 \<le> length f"
proof (induction "length b" arbitrary: b rule: less_induct)
  case less
  show ?case
  proof (cases "index_of SYNC b")
    case None
    then show ?thesis using less.prems by (simp add: loop_nosync)
  next
    case (Some i)
    then have i: "i < length b" by (simp add: index_of_SomeD)
    define fl where "fl = 3 + rtcm_length (b ! (i + 1)) (b ! (i + 2)) + 3"
    consider (short) "length b - i < 3"
      | (wait) "\<not> length b - i < 3" "length b - i < fl"
      | (frame) "\<not> length b - i < 3" "\<not> length b - i < fl"
      by blast
    then show ?thesis
    proof cases
      case short
      then have "rtcm_loop ns b = ([], drop i b)" using Some by (simp add: loop_short)
      then show ?thesis using less.prems by simp
    next
      case wait
      then have l: "rtcm_loop ns b = ([], drop i b)"
        using Some unfolding fl_def by (intro loop_wait) simp_all
      then show ?thesis using less.prems by simp
    next
      case frame
      define b' where "b' = drop (i + fl) b"
      have lb: "rtcm_loop ns b =
          (take fl (drop i b) # fst (rtcm_loop ns b'), snd (rtcm_loop ns b'))"
        unfolding b'_def using Some frame(1) fl_def frame(2) by (rule loop_frame)
      have len: "length b' < length b" unfolding b'_def fl_def using i by simp
      have "length (take fl (drop i b)) = fl" using frame(2) by simp
      then have "6 \<le> length (take fl (drop i b))" by (simp add: fl_def)
      then show ?thesis using less.prems less.hyps [OF len] unfolding lb by auto
    qed
  qed
qed

lemma account_frame_typed:
  "6 \<le> length f \<Longrightarrow> typed_frame f \<Longrightarrow>
   rtcm_valid_frames (account_frame t f st) = rtcm_valid_frames st + 1 \<and>
   rtcm_msg_types (account_frame t f st) = insert (frame_type f) (rtcm_msg_types st)"
  by (simp add: account_frame_def typed_frame_def frame_type_def Let_def)

lemma account_frame_untyped:
  "\<not> typed_frame f \<Longrightarrow> account_frame t f st = st"
  by (auto simp: account_frame_def typed_frame_def Let_def)

lemma fold_account_counts:
  "\<forall>f \<in> set fs. 6 \<le> length f \<Longrightarrow>
   rtcm_valid_frames (fold (account_frame t) fs st) =
     rtcm_valid_frames st + length (filter typed_frame fs) \<and>
   rtcm_msg_types (fold (account_frame t) fs st) =
     rtcm_msg_types st \<union> set (map frame_type (filter typed_frame fs))"
proof (induction fs arbitrary: st)
  case Nil
  show ?case by simp
next
  case (Cons f fs)
  show ?case
  proof (cases "typed_frame f")
    case True
    with Cons show ?thesis by (simp add: account_frame_typed)
  next
    case False
    with Cons show ?thesis by (simp add: account_frame_untyped)
  qed
qed

lemma count_frame_counts:
  "msg_counts (count_frame f st) m =
     msg_counts st m + (if 0 < m \<and> parse_rtcm3_message_type (payload_of f) = m then 1 else 0)"
  by (simp add: count_frame_def Let_def)

lemma count_frame_total: "total_bytes (count_frame f st) = total_bytes st"
  by (simp add: count_frame_def Let_def)

lemma fold_count_counts:
  "msg_counts (fold count_frame fs st) m =
     msg_counts st m +
     length (filter (\<lambda>f. 0 < m \<and> parse_rtcm3_message_type (payload_of f) = m) fs)"
  by (induction fs arbitrary: st) (simp_all add: count_frame_counts)

lemma validate_counts:
  "rtcm_valid_frames (validate_rtcm_data st t bs) =
     rtcm_valid_frames st + length (filter typed_frame (validate_rtcm_frames st bs)) \<and>
   rtcm_msg_types (validate_rtcm_data st t bs) =
     rtcm_msg_types st \<union> set (map frame_type (filter typed_frame (validate_rtcm_frames st bs)))"
proof -
  have "\<forall>f \<in> set (fst (rtcm_loop clear_over_cap (rtcm_buffer st @ bs))). 6 \<le> length f"
    by (simp add: loop_frames_length)
  from fold_account_counts [OF this]
  show ?thesis
    by (simp add: validate_rtcm_data_def validate_rtcm_frames_def Let_def)
qed

lemma read_chunk_counts:
  "msg_counts (read_chunk rd chunk) m =
     msg_counts rd m +
     length (filter (\<lambda>f. 0 < m \<and> parse_rtcm3_message_type (payload_of f) = m)
               (read_chunk_frames rd chunk))"
  by (simp add: read_chunk_def read_chunk_frames_def Let_def fold_count_counts)

lemma rover_feed_counts:
  "rtcm_valid_frames (snd (rover_feed st tcs)) =
     rtcm_valid_frames st + length (filter typed_frame (fst (rover_feed st tcs))) \<and>
   rtcm_msg_types (snd (rover_feed st tcs)) =
     rtcm_msg_types st \<union> set (map frame_type (filter typed_frame (fst (rover_feed st tcs))))"
proof (induction tcs arbitrary: st)
  case Nil
  show ?case by simp
next
  case (Cons tc tcs)
  obtain t c where tc: "tc = (t, c)" by (cases tc)
  show ?case
    using Cons.IH [of "validate_rtcm_data st t c"] validate_counts [of st t c]
    by (simp add: tc Let_def Un_assoc)
qed

lemma reader_feed_counts:
  "msg_counts (snd (reader_feed st cs)) m =
     msg_counts st m +
     length (filter (\<lambda>f. 0 < m \<and> parse_rtcm3_message_type (payload_of f) = m)
               (fst (reader_feed st cs)))"
proof (induction cs arbitrary: st)
  case Nil
  show ?case by simp
next
  case (Cons c cs)
  show ?case
    using Cons.IH [of "read_chunk st c"] read_chunk_counts [of st c m]
    by (simp add: Let_def)
qed

text \<open>
  Claim C6, as stated, fails: a complete frame whose payload is shorter than 2 bytes is cut
  out of the buffer, yet \<open>rtcm_valid_frames\<close> keeps its value.
\<close>

theorem untyped_frame_counted_counterexample:
  "validate_rtcm_frames rover_init [0xD3, 0, 0, 0x11, 0x22, 0x33] =
     [[0xD3, 0, 0, 0x11, 0x22, 0x33]] \<and>
   length (payload_of [0xD3, 0, 0, 0x11, 0x22, 0x33]) < 2 \<and>
   rtcm_buffer (validate_rtcm_data rover_init 7 [0xD3, 0, 0, 0x11, 0x22, 0x33]) = [] \<and>
   rtcm_valid_frames (validate_rtcm_data rover_init 7 [0xD3, 0, 0, 0x11, 0x22, 0x33]) \<noteq>
     rtcm_valid_frames rover_init + 1"
  by code_simp

text \<open>
  Claim C6, amended.  One call of \<open>validate_rtcm_data\<close> raises the frame counter by the
  number of extracted frames that have a payload of at least 2 bytes and a message type
  above 0, and adds exactly the types of those frames; one pass of the stream reader raises
  the count of a type \<open>m\<close> by the number of extracted frames that parse to \<open>m > 0\<close>.  An
  extracted frame with a shorter payload or with type 0 is consumed from the buffer and is
  neither counted nor attributed to a type.
\<close>

theorem untyped_frames_not_counted:
  "rtcm_valid_frames (validate_rtcm_data st current_time bs) =
     rtcm_valid_frames st + length (filter typed_frame (validate_rtcm_frames st bs)) \<and>
   rtcm_msg_types (validate_rtcm_data st current_time bs) =
     rtcm_msg_types st \<union> set (map frame_type (filter typed_frame (validate_rtcm_frames st bs))) \<and>
   msg_counts (read_chunk rd chunk) m =
     msg_counts rd m +
     length (filter (\<lambda>f. 0 < m \<and> parse_rtcm3_message_type (payload_of f) = m)
               (read_chunk_frames rd chunk))"
  using validate_counts [of st current_time bs] read_chunk_counts [of rd chunk m]
  by simp

theorem untyped_frames_not_counted_witness:
  "validate_rtcm_frames rover_init
      [0xD3, 0, 0, 0x11, 0x22, 0x33, 0xD3, 0, 2, 0x3E, 0xD0, 9, 9, 9, 0xD3, 0, 2, 0, 5, 1, 1, 1]
     = [[0xD3, 0, 0, 0x11, 0x22, 0x33], [0xD3, 0, 2, 0x3E, 0xD0, 9, 9, 9],
        [0xD3, 0, 2, 0, 5, 1, 1, 1]] \<and>
   rtcm_valid_frames (validate_rtcm_data rover_init 7
      [0xD3, 0, 0, 0x11, 0x22, 0x33, 0xD3, 0, 2, 0x3E, 0xD0, 9, 9, 9, 0xD3, 0, 2, 0, 5, 1, 1, 1])
     = 1 \<and>
   rtcm_msg_types (validate_rtcm_data rover_init 7
      [0xD3, 0, 0, 0x11, 0x22, 0x33, 0xD3, 0, 2, 0x3E, 0xD0, 9, 9, 9, 0xD3, 0, 2, 0, 5, 1, 1, 1])
     = {1005}"
proof -
  define bs :: bytes where "bs =
    [0xD3, 0, 0, 0x11, 0x22, 0x33, 0xD3, 0, 2, 0x3E, 0xD0, 9, 9, 9, 0xD3, 0, 2, 0, 5, 1, 1, 1]"
  have fs: "validate_rtcm_frames rover_init bs =
      [[0xD3, 0, 0, 0x11, 0x22, 0x33], [0xD3, 0, 2, 0x3E, 0xD0, 9, 9, 9],
       [0xD3, 0, 2, 0, 5, 1, 1, 1]]"
    unfolding bs_def by code_simp
  have t1: "\<not> typed_frame [0xD3, 0, 0, 0x11, 0x22, 0x33]" by code_simp
  have t2: "typed_frame [0xD3, 0, 2, 0x3E, 0xD0, 9, 9, 9]"
    by (simp add: typed_frame_def payload_of_def msg_type_bits_def)
  have t3: "\<not> typed_frame [0xD3, 0, 2, 0, 5, 1, 1, 1]" by code_simp
  have ft: "frame_type [0xD3, 0, 2, 0x3E, 0xD0, 9, 9, 9] = 1005"
    by (simp add: frame_type_def payload_of_def msg_type_bits_def)
  have r0: "rtcm_valid_frames rover_init = 0" "rtcm_msg_types rover_init = {}"
    by (simp_all add: rover_init_def)
  from untyped_frames_not_counted [of rover_init 7 bs "reader_init []" "[]" 0]
  show ?thesis
    unfolding bs_def [symmetric] by (simp add: fs t1 t2 t3 ft r0)
qed

text \<open>
  Claim C1 (chunk-size independence).  A stream is some noise free of the sync byte followed
  by well-formed frames, each followed by noise free of the sync byte.  However the stream is
  cut into chunks, feeding the chunks one after the other to the rover's decoder and to the
  stream reader, both starting with an empty buffer, extracts exactly the frames of the
  stream, in their order; so the number of frames and the message type of each
  (\<open>frame_type\<close> of the same frame) do not depend on the chunking.  Nor do the counters:
  the rover ends with the number and the types of the stream's typed frames, the reader
  with the count of each type.
\<close>

theorem chunk_size_independence:
  assumes "well_formed_stream n0 fns"
    and "concat (map snd timed_chunks) = n0 @ interleaved fns"
    and "concat chunks = n0 @ interleaved fns"
  shows "fst (rover_feed rover_init timed_chunks) = map fst fns \<and>
         fst (reader_feed (reader_init []) chunks) = map fst fns \<and>
         rtcm_valid_frames (snd (rover_feed rover_init timed_chunks)) =
           length (filter typed_frame (map fst fns)) \<and>
         rtcm_msg_types (snd (rover_feed rover_init timed_chunks)) =
           set (map frame_type (filter typed_frame (map fst fns))) \<and>
         msg_counts (snd (reader_feed (reader_init []) chunks)) m =
           length (filter (\<lambda>f. 0 < m \<and> parse_rtcm3_message_type (payload_of f) = m)
                     (map fst fns))"
proof -
  have n0: "SYNC \<notin> set n0"
    and fns: "list_all (\<lambda>(f, n). well_formed_frame f \<and> SYNC \<notin> set n) fns"
    using assms(1) by (simp_all add: well_formed_stream_def)
  have "fst (rover_feed rover_init timed_chunks) =
        fst (rtcm_loop clear_over_cap ([] @ concat (map snd timed_chunks)))"
    unfolding rover_feed_loop_feed
    using loop_feed_concat [OF keeps_clear_over_cap loop_empty]
    by (simp add: rover_init_def)
  also have "\<dots> = map fst fns"
    using loop_stream [OF keeps_clear_over_cap n0 fns] assms(2) by simp
  finally have a: "fst (rover_feed rover_init timed_chunks) = map fst fns" .
  have "fst (reader_feed (reader_init []) chunks) =
        fst (rtcm_loop clear_buffer ([] @ concat chunks))"
    unfolding reader_feed_loop_feed
    using loop_feed_concat [OF keeps_clear_buffer loop_empty]
    by (simp add: reader_init_def)
  also have "\<dots> = map fst fns"
    using loop_stream [OF keeps_clear_buffer n0 fns] assms(3) by simp
  finally have b: "fst (reader_feed (reader_init []) chunks) = map fst fns" .
  have c: "rtcm_valid_frames (snd (rover_feed rover_init timed_chunks)) =
           length (filter typed_frame (map fst fns))"
    and d: "rtcm_msg_types (snd (rover_feed rover_init timed_chunks)) =
           set (map frame_type (filter typed_frame (map fst fns)))"
    using rover_feed_counts [of rover_init timed_chunks] a by (simp_all add: rover_init_def)
  have e: "msg_counts (snd (reader_feed (reader_init []) chunks)) m =
           length (filter (\<lambda>f. 0 < m \<and> parse_rtcm3_message_type (payload_of f) = m)
                     (map fst fns))"
    using reader_feed_counts [of "reader_init []" chunks m] b by (simp add: reader_init_def)
  show ?thesis by (intro conjI) (rule a, rule b, rule c, rule d, rule e)
qed

theorem chunk_size_independence_witness:
  "well_formed_stream [1, 2]
     [([0xD3, 0, 2, 0x3E, 0xD0, 9, 9, 9], [5]), ([0xD3, 0, 0, 1, 2, 3], [])] \<and>
   fst (rover_feed rover_init
          [(0, [1, 2, 0xD3, 0]), (1, [2, 0x3E, 0xD0, 9]), (2, [9, 9, 5, 0xD3, 0, 0, 1, 2]),
           (3, [3])])
     = [[0xD3, 0, 2, 0x3E, 0xD0, 9, 9, 9], [0xD3, 0, 0, 1, 2, 3]] \<and>
   fst (reader_feed (reader_init [])
          [[1, 2, 0xD3, 0, 2, 0x3E, 0xD0, 9, 9, 9, 5, 0xD3], [0, 0, 1, 2, 3]])
     = [[0xD3, 0, 2, 0x3E, 0xD0, 9, 9, 9], [0xD3, 0, 0, 1, 2, 3]] \<and>
   rtcm_valid_frames (snd (rover_feed rover_init
          [(0, [1, 2, 0xD3, 0]), (1, [2, 0x3E, 0xD0, 9]), (2, [9, 9, 5, 0xD3, 0, 0, 1, 2]),
           (3, [3])])) = 1 \<and>
   rtcm_msg_types (snd (rover_feed rover_init
          [(0, [1, 2, 0xD3, 0]), (1, [2, 0x3E, 0xD0, 9]), (2, [9, 9, 5, 0xD3, 0, 0, 1, 2]),
           (3, [3])])) = {1005}"
proof -
  have t1: "typed_frame [0xD3, 0, 2, 0x3E, 0xD0, 9, 9, 9]"
    by (simp add: typed_frame_def payload_of_def msg_type_bits_def)
  have t2: "\<not> typed_frame [0xD3, 0, 0, 1, 2, 3]"
    by (simp add: typed_frame_def payload_of_def)
  have ft: "frame_type [0xD3, 0, 2, 0x3E, 0xD0, 9, 9, 9] = 1005"
    by (simp add: frame_type_def payload_of_def msg_type_bits_def)
  have h1: "well_formed_stream [1, 2]
     [([0xD3, 0, 2, 0x3E, 0xD0, 9, 9, 9], [5]), ([0xD3, 0, 0, 1, 2, 3], [])]"
    by code_simp
  have h2: "concat (map snd
      [(0 :: nat, [1, 2, 0xD3, 0]), (1, [2, 0x3E, 0xD0, 9]), (2, [9, 9, 5, 0xD3, 0, 0, 1, 2]),
       (3, [3 :: byte])])
     = [1, 2] @ interleaved
         [([0xD3, 0, 2, 0x3E, 0xD0, 9, 9, 9], [5]), ([0xD3, 0, 0, 1, 2, 3], [])]"
    by simp
  have h3: "concat [[1, 2, 0xD3, 0, 2, 0x3E, 0xD0, 9, 9, 9, 5, 0xD3], [0, 0, 1, 2, 3 :: byte]]
     = [1, 2] @ interleaved
         [([0xD3, 0, 2, 0x3E, 0xD0, 9, 9, 9], [5]), ([0xD3, 0, 0, 1, 2, 3], [])]"
    by simp
  from chunk_size_independence [OF h1 h2 h3, of 0] h1 show ?thesis
    by (simp add: t1 t2 ft)
qed

section \<open>Properties of the tunnel adapter\<close>

declare send_loop.simps [simp del]

lemma send_loop_done:
  "\<not> offset < length p \<Longrightarrow> send_loop dev fl p baud offset = []"
  by (subst send_loop.simps) simp

lemma send_loop_step:
  "offset < length p \<Longrightarrow> c = min 70 (length p - offset) \<Longrightarrow>
   send_loop dev fl p baud offset =
     \<lparr> device = dev, flags = fl, timeout = 0, baudrate = baud, count = c,
       data = take 70 (drop offset p) @ replicate (70 - c) 0 \<rparr>
     # send_loop dev fl p baud (offset + c)"
  by (subst send_loop.simps) (simp add: Let_def min_def)

lemma send_loop_concat:
  "concat (map (\<lambda>m. take (count m) (data m)) (send_loop dev fl p baud offset)) = drop offset p"
proof (induction "length p - offset" arbitrary: offset rule: less_induct)
  case less
  show ?case
  proof (cases "offset < length p")
    case False
    then show ?thesis by (simp add: send_loop_done)
  next
    case True
    define c where "c = min 70 (length p - offset)"
    have c: "0 < c" "c \<le> 70" "offset + c \<le> length p" using True by (simp_all add: c_def)
    have "length p - (offset + c) < length p - offset" using True c by arith
    from less [OF this]
    have ih: "concat (map (\<lambda>m. take (count m) (data m)) (send_loop dev fl p baud (offset + c)))
        = drop (offset + c) p" .
    have "length (take 70 (drop offset p)) = c" by (simp add: c_def)
    then have "take c (take 70 (drop offset p) @ replicate (70 - c) 0) =
        take c (take 70 (drop offset p))" by simp
    also have "\<dots> = take c (drop offset p)" using c(2) by (simp add: min_def)
    finally have t: "take c (take 70 (drop offset p) @ replicate (70 - c) 0) =
        take c (drop offset p)" .
    have "take c (drop offset p) @ drop (offset + c) p = drop offset p"
      by (metis add.commute append_take_drop_id drop_drop)
    then show ?thesis
      unfolding send_loop_step [OF True c_def] using ih t by simp
  qed
qed

lemma send_loop_counts:
  "map count (send_loop dev fl p baud offset) =
     replicate ((length p - offset) div 70) 70 @
     (if (length p - offset) mod 70 = 0 then [] else [(length p - offset) mod 70])"
proof (induction "length p - offset" arbitrary: offset rule: less_induct)
  case less
  show ?case
  proof (cases "offset < length p")
    case False
    then show ?thesis by (simp add: send_loop_done)
  next
    case True
    define n where "n = length p - offset"
    define c where "c = min 70 n"
    have c': "c = min 70 (length p - offset)" by (simp add: c_def n_def)
    have npos: "0 < n" using True by (simp add: n_def)
    have "length p - (offset + c) < length p - offset" using True by (simp add: c_def n_def)
    from less [OF this]
    have ih: "map count (send_loop dev fl p baud (offset + c)) =
       replicate ((n - c) div 70) 70 @ (if (n - c) mod 70 = 0 then [] else [(n - c) mod 70])"
      by (simp add: n_def)
    show ?thesis
    proof (cases "70 \<le> n")
      case True
      then have c70: "c = 70" by (simp add: c_def)
      have d: "n div 70 = Suc ((n - 70) div 70)" using True by (simp add: le_div_geq)
      have m: "(n - 70) mod 70 = n mod 70" using True by (simp add: le_mod_geq)
      show ?thesis
        unfolding send_loop_step [OF \<open>offset < length p\<close> c'] n_def [symmetric]
        using ih by (simp add: c70 d m)
    next
      case False
      then have cn: "c = n" by (simp add: c_def)
      have "n div 70 = 0" "n mod 70 = n" using False by simp_all
      then show ?thesis
        unfolding send_loop_step [OF \<open>offset < length p\<close> c'] n_def [symmetric]
        using ih npos by (simp add: cn)
    qed
  qed
qed

lemma send_loop_padded:
  "m \<in> set (send_loop dev fl p baud offset) \<Longrightarrow>
   length (data m) = 70 \<and> drop (count m) (data m) = replicate (70 - count m) 0"
proof (induction "length p - offset" arbitrary: offset rule: less_induct)
  case less
  show ?case
  proof (cases "offset < length p")
    case False
    then show ?thesis using less.prems by (simp add: send_loop_done)
  next
    case True
    define c where "c = min 70 (length p - offset)"
    have lt: "length p - (offset + c) < length p - offset" using True by (simp add: c_def)
    have len: "length (take 70 (drop offset p)) = c" by (simp add: c_def)
    have c70: "c \<le> 70" by (simp add: c_def)
    from less.prems consider
      (hd) "m = \<lparr> device = dev, flags = fl, timeout = 0, baudrate = baud, count = c,
                  data = take 70 (drop offset p) @ replicate (70 - c) 0 \<rparr>"
      | (tl) "m \<in> set (send_loop dev fl p baud (offset + c))"
      unfolding send_loop_step [OF True c_def] by auto
    then show ?thesis
    proof cases
      case hd
      then show ?thesis using len c70 by simp
    next
      case tl
      then show ?thesis by (rule less.hyps [OF lt])
    qed
  qed
qed

text \<open>
  Claim C2 (outbound split).  For a payload of length \<open>L\<close>, \<open>send_serial_bytes\<close> transmits
  \<open>ceil(L/70)\<close> messages; every message but the last has \<open>count = 70\<close>; the last has
  \<open>count = L mod 70\<close>, or 70 when 70 divides \<open>L\<close>; every data field is 70 bytes long and
  is zero from position \<open>count\<close> on; and the first \<open>count\<close> bytes of the data fields, joined
  in transmission order, are the payload.
\<close>

theorem outbound_split:
  "length (send_serial_bytes dev payload baud exclusive) = (length payload + 69) div 70 \<and>
   (\<forall>i. Suc i < length (send_serial_bytes dev payload baud exclusive) \<longrightarrow>
        count (send_serial_bytes dev payload baud exclusive ! i) = 70) \<and>
   (send_serial_bytes dev payload baud exclusive \<noteq> [] \<longrightarrow>
        count (last (send_serial_bytes dev payload baud exclusive)) =
          (if length payload mod 70 = 0 then 70 else length payload mod 70)) \<and>
   (\<forall>m \<in> set (send_serial_bytes dev payload baud exclusive).
        length (data m) = 70 \<and> drop (count m) (data m) = replicate (70 - count m) 0) \<and>
   concat (map (\<lambda>m. take (count m) (data m)) (send_serial_bytes dev payload baud exclusive))
     = payload"
proof -
  define msgs where "msgs = send_serial_bytes dev payload baud exclusive"
  define L where "L = length payload"
  define q where "q = L div 70"
  define r where "r = L mod 70"
  have cs: "map count msgs = replicate q 70 @ (if r = 0 then [] else [r])"
    unfolding msgs_def send_serial_bytes_def q_def r_def L_def
    using send_loop_counts [of dev _ payload baud 0] by simp
  have len: "length msgs = q + (if r = 0 then 0 else 1)"
    using arg_cong [OF cs, of length] by simp
  have L: "L = 70 * q + r" by (simp add: q_def r_def)
  have r70: "r < 70" by (simp add: r_def)
  have c1: "length msgs = (L + 69) div 70"
    using len L r70 by (simp split: if_splits)
  have c2: "\<forall>i. Suc i < length msgs \<longrightarrow> count (msgs ! i) = 70"
  proof (intro allI impI)
    fix i assume i: "Suc i < length msgs"
    then have iq: "i < q" using len by (simp split: if_splits)
    have "count (msgs ! i) = map count msgs ! i" using i by simp
    also have "\<dots> = 70" unfolding cs using iq by (simp add: nth_append)
    finally show "count (msgs ! i) = 70" .
  qed
  have c3: "msgs \<noteq> [] \<longrightarrow> count (last msgs) = (if r = 0 then 70 else r)"
  proof
    assume ne: "msgs \<noteq> []"
    then have "count (last msgs) = last (map count msgs)" by (simp add: last_map)
    also have "\<dots> = (if r = 0 then 70 else r)"
    proof (cases "r = 0")
      case True
      then have "q \<noteq> 0" using ne len by auto
      then show ?thesis unfolding cs using True by simp
    next
      case False
      then show ?thesis unfolding cs by simp
    qed
    finally show "count (last msgs) = (if r = 0 then 70 else r)" .
  qed
  have c4: "\<forall>m \<in> set msgs. length (data m) = 70 \<and> drop (count m) (data m) = replicate (70 - count m) 0"
    unfolding msgs_def send_serial_bytes_def using send_loop_padded by blast
  have c5: "concat (map (\<lambda>m. take (count m) (data m)) msgs) = payload"
    unfolding msgs_def send_serial_bytes_def by (simp add: send_loop_concat)
  show ?thesis
    unfolding msgs_def [symmetric] L_def [symmetric] r_def [symmetric]
    by (intro conjI) (rule c1, rule c2, rule c3, rule c4, rule c5)
qed

theorem outbound_split_witness:
  "length (send_serial_bytes 3 (replicate 150 7) 115200 True) = 3 \<and>
   count (send_serial_bytes 3 (replicate 150 7) 115200 True ! 0) = 70 \<and>
   count (send_serial_bytes 3 (replicate 150 7) 115200 True ! 1) = 70 \<and>
   count (send_serial_bytes 3 (replicate 150 7) 115200 True ! 2) = 10 \<and>
   length (data (send_serial_bytes 3 (replicate 150 7) 115200 True ! 2)) = 70 \<and>
   drop 10 (data (send_serial_bytes 3 (replicate 150 7) 115200 True ! 2)) = replicate 60 0 \<and>
   concat (map (\<lambda>m. take (count m) (data m)) (send_serial_bytes 3 (replicate 150 7) 115200 True))
     = replicate 150 7"
proof -
  define msgs where "msgs = send_serial_bytes 3 (replicate 150 7) 115200 True"
  note t = outbound_split [of 3 "replicate 150 7" 115200 True, folded msgs_def]
  have len: "length msgs = 3" using t by simp
  then have ne: "msgs \<noteq> []" by auto
  have c0: "count (msgs ! 0) = 70" using t len by simp
  have c1: "count (msgs ! 1) = 70" using t len by simp
  have "last msgs = msgs ! 2" using len ne by (simp add: last_conv_nth)
  moreover have "count (last msgs) = 10" using t ne by simp
  ultimately have c2: "count (msgs ! 2) = 10" by simp
  have "msgs ! 2 \<in> set msgs" using len by simp
  then have "length (data (msgs ! 2)) = 70 \<and>
      drop (count (msgs ! 2)) (data (msgs ! 2)) = replicate (70 - count (msgs ! 2)) 0"
    using t by blast
  then have c3: "length (data (msgs ! 2)) = 70" "drop 10 (data (msgs ! 2)) = replicate 60 0"
    using c2 by simp_all
  have c4: "concat (map (\<lambda>m. take (count m) (data m)) msgs) = replicate 150 7"
    using t by simp
  show ?thesis
    unfolding msgs_def [symmetric] using len c0 c1 c2 c3 c4 by simp
qed

section \<open>Properties of the inbound passthrough\<close>

lemma is_all_zero_iff: "is_all_zero bs \<longleftrightarrow> set bs \<subseteq> {0}"
  by (induction bs) auto

lemma gps2_suppresses_zero:
  "count m > 0 \<Longrightarrow> device m = dev \<Longrightarrow>
   gps2_to_tcp_forward dev True (Some m) =
     (if set (take (count m) (data m)) \<subseteq> {0} then None else Some (take (count m) (data m)))"
  by (simp add: gps2_to_tcp_forward_def Let_def is_all_zero_iff)

text \<open>
  Claim C7 holds for \<open>gps2_to_tcp_loop\<close> (lemma \<open>gps2_suppresses_zero\<close>) and fails for
  \<open>mavlink_loop\<close>: a matching message with \<open>count = 3\<close> and an all-zero data field is
  written to the connected client by \<open>mavlink_loop\<close>, and suppressed by
  \<open>gps2_to_tcp_loop\<close>.
\<close>

theorem mavlink_loop_forwards_all_zero:
  "is_all_zero (take 3 (replicate 70 0)) \<and>
   mavlink_loop_forward 3 True
     (Some \<lparr> device = 3, flags = 0, timeout = 0, baudrate = 115200, count = 3,
             data = replicate 70 0 \<rparr>) = Some [0, 0, 0] \<and>
   gps2_to_tcp_forward 3 True
     (Some \<lparr> device = 3, flags = 0, timeout = 0, baudrate = 115200, count = 3,
             data = replicate 70 0 \<rparr>) = None"
  by (simp add: mavlink_loop_forward_def gps2_to_tcp_forward_def is_all_zero_iff
      numeral_3_eq_3)

section \<open>Properties of the subscriber registry\<close>

lemma sweep_disconnected:
  "fst (send_sweep fails p cs nw) = filter (\<lambda>c. fails (fst c)) cs"
  by (induction fails p cs nw rule: send_sweep.induct) (simp_all add: Let_def)

lemma sweep_closed: "closed (snd (send_sweep fails p cs nw)) = closed nw"
  by (induction fails p cs nw rule: send_sweep.induct) (simp_all add: Let_def)

lemma sweep_sent_untouched:
  "s \<notin> fst ` set cs \<or> fails s \<Longrightarrow> sent (snd (send_sweep fails p cs nw)) s = sent nw s"
  by (induction fails p cs nw rule: send_sweep.induct) (auto simp: Let_def)

lemma sweep_sent:
  "distinct (map fst cs) \<Longrightarrow> s \<in> fst ` set cs \<Longrightarrow> \<not> fails s \<Longrightarrow>
   sent (snd (send_sweep fails p cs nw)) s = sent nw s @ [p]"
proof (induction fails p cs nw rule: send_sweep.induct)
  case (1 fails p nw)
  then show ?case by simp
next
  case (2 fails p client_sock a cs nw)
  show ?case
  proof (cases "s = client_sock")
    case True
    then have "s \<notin> fst ` set cs" using "2.prems"(1) by auto
    then show ?thesis using True "2.prems"(3) by (simp add: sweep_sent_untouched)
  next
    case False
    then have "s \<in> fst ` set cs" using "2.prems"(2) by auto
    then show ?thesis using False "2.prems" "2.IH" by (simp add: Let_def)
  qed
qed

lemma remove_disconnected_clients:
  "fst (remove_disconnected ds (cl, nw)) = fold remove1 ds cl"
  by (induction ds "(cl, nw)" arbitrary: cl nw rule: remove_disconnected.induct) simp_all

lemma remove_disconnected_closed:
  "closed (snd (remove_disconnected ds (cl, nw))) = closed nw \<union> fst ` set ds"
  by (induction ds "(cl, nw)" arbitrary: cl nw rule: remove_disconnected.induct) auto

lemma remove_disconnected_sent:
  "sent (snd (remove_disconnected ds (cl, nw))) = sent nw"
  by (induction ds "(cl, nw)" arbitrary: cl nw rule: remove_disconnected.induct) auto

lemma only_failing:
  assumes "j < length cs" and "\<forall>i < length cs. fails (fst (cs ! i)) \<longleftrightarrow> i = j"
  shows "filter (\<lambda>c. fails (fst c)) cs = [cs ! j]"
proof -
  have split: "cs = take j cs @ cs ! j # drop (Suc j) cs"
    using assms(1) by (rule id_take_nth_drop)
  have a: "filter (\<lambda>c. fails (fst c)) (take j cs) = []"
  proof -
    have "\<not> fails (fst c)" if "c \<in> set (take j cs)" for c
    proof -
      from that obtain i where "i < length (take j cs)" "take j cs ! i = c"
        by (auto simp: in_set_conv_nth)
      then have "i < j" "i < length cs" "cs ! i = c" by simp_all
      then show ?thesis using assms(2) by auto
    qed
    then show ?thesis by (simp add: filter_empty_conv)
  qed
  have b: "filter (\<lambda>c. fails (fst c)) (drop (Suc j) cs) = []"
  proof -
    have "\<not> fails (fst c)" if "c \<in> set (drop (Suc j) cs)" for c
    proof -
      from that obtain i where i: "i < length (drop (Suc j) cs)" "drop (Suc j) cs ! i = c"
        by (auto simp: in_set_conv_nth)
      then have "Suc j + i < length cs" "cs ! (Suc j + i) = c" by simp_all
      then show ?thesis using assms(2) by auto
    qed
    then show ?thesis by (simp add: filter_empty_conv)
  qed
  have c: "fails (fst (cs ! j))" using assms by simp
  have "filter (\<lambda>c. fails (fst c)) (take j cs @ cs ! j # drop (Suc j) cs) = [cs ! j]"
    using a b c by simp
  then show ?thesis using split by simp
qed

lemma remove1_nth:
  assumes "distinct cs" and "j < length cs"
  shows "remove1 (cs ! j) cs = take j cs @ drop (Suc j) cs"
proof -
  have split: "cs = take j cs @ cs ! j # drop (Suc j) cs"
    using assms(2) by (rule id_take_nth_drop)
  have "cs ! j \<notin> set (take j cs)"
    using assms by (metis distinct_take id_take_nth_drop not_distinct_conv_prefix split)
  then have "remove1 (cs ! j) (take j cs @ cs ! j # drop (Suc j) cs) =
      take j cs @ drop (Suc j) cs"
    by (simp add: remove1_append)
  then show ?thesis using split by simp
qed

text \<open>
  Claim C3 (broadcast with one failing subscriber).  The registry holds \<open>k\<close> subscribers,
  each with a socket of its own, and exactly the write to subscriber \<open>j\<close> fails.  After
  \<open>broadcast\<close> the registry is the old one without entry \<open>j\<close>, in the old order, so its
  count is \<open>k - 1\<close>; the socket of \<open>j\<close> is closed; and every other subscriber has received
  the whole payload, appended after everything written to it before.
\<close>

theorem broadcast_prunes_failing:
  assumes "distinct (map fst clients)"
    and "j < length clients"
    and "\<forall>i < length clients. fails (fst (clients ! i)) \<longleftrightarrow> i = j"
  shows "fst (broadcast fails payload (clients, nw)) = take j clients @ drop (Suc j) clients \<and>
         get_count (broadcast fails payload (clients, nw)) = length clients - 1 \<and>
         clients ! j \<notin> set (fst (broadcast fails payload (clients, nw))) \<and>
         fst (clients ! j) \<in> closed (snd (broadcast fails payload (clients, nw))) \<and>
         (\<forall>i < length clients. i \<noteq> j \<longrightarrow>
            sent (snd (broadcast fails payload (clients, nw))) (fst (clients ! i)) =
              sent nw (fst (clients ! i)) @ [payload])"
proof -
  define r where "r = send_sweep fails payload clients nw"
  have d: "distinct clients" using assms(1) by (simp add: distinct_map)
  have disc: "fst r = [clients ! j]"
    unfolding r_def sweep_disconnected using assms(2,3) by (rule only_failing)
  have b: "broadcast fails payload (clients, nw) =
      remove_disconnected [clients ! j] (clients, snd r)"
    by (simp add: broadcast_def Let_def r_def [symmetric] disc)
  have c1: "fst (broadcast fails payload (clients, nw)) = take j clients @ drop (Suc j) clients"
    unfolding b remove_disconnected_clients using remove1_nth [OF d assms(2)] by simp
  have c2: "get_count (broadcast fails payload (clients, nw)) = length clients - 1"
    unfolding get_count_def c1 using assms(2) by simp
  have c3: "clients ! j \<notin> set (fst (broadcast fails payload (clients, nw)))"
    unfolding b remove_disconnected_clients using d by simp
  have c4: "fst (clients ! j) \<in> closed (snd (broadcast fails payload (clients, nw)))"
    unfolding b remove_disconnected_closed by simp
  have c5: "\<forall>i < length clients. i \<noteq> j \<longrightarrow>
        sent (snd (broadcast fails payload (clients, nw))) (fst (clients ! i)) =
          sent nw (fst (clients ! i)) @ [payload]"
  proof (intro allI impI)
    fix i assume i: "i < length clients" "i \<noteq> j"
    then have nf: "\<not> fails (fst (clients ! i))" using assms(3) by simp
    have mem: "fst (clients ! i) \<in> fst ` set clients" using i(1) by simp
    show "sent (snd (broadcast fails payload (clients, nw))) (fst (clients ! i)) =
          sent nw (fst (clients ! i)) @ [payload]"
      unfolding b remove_disconnected_sent r_def
      using assms(1) mem nf by (rule sweep_sent)
  qed
  show ?thesis by (intro conjI) (rule c1, rule c2, rule c3, rule c4, rule c5)
qed

theorem broadcast_prunes_failing_witness:
  "fst (broadcast (\<lambda>s. s = 2) [1, 2, 3]
     ([(1, (''a'', 1)), (2, (''b'', 2)), (3, (''c'', 3))], \<lparr> sent = (\<lambda>s. []), closed = {} \<rparr>))
     = [(1, (''a'', 1)), (3, (''c'', 3))] \<and>
   get_count (broadcast (\<lambda>s. s = 2) [1, 2, 3]
     ([(1, (''a'', 1)), (2, (''b'', 2)), (3, (''c'', 3))], \<lparr> sent = (\<lambda>s. []), closed = {} \<rparr>))
     = 2 \<and>
   2 \<in> closed (snd (broadcast (\<lambda>s. s = 2) [1, 2, 3]
     ([(1, (''a'', 1)), (2, (''b'', 2)), (3, (''c'', 3))], \<lparr> sent = (\<lambda>s. []), closed = {} \<rparr>))) \<and>
   sent (snd (broadcast (\<lambda>s. s = 2) [1, 2, 3]
     ([(1, (''a'', 1)), (2, (''b'', 2)), (3, (''c'', 3))], \<lparr> sent = (\<lambda>s. []), closed = {} \<rparr>))) 1
     = [[1, 2, 3]] \<and>
   sent (snd (broadcast (\<lambda>s. s = 2) [1, 2, 3]
     ([(1, (''a'', 1)), (2, (''b'', 2)), (3, (''c'', 3))], \<lparr> sent = (\<lambda>s. []), closed = {} \<rparr>))) 3
     = [[1, 2, 3]]"
proof -
  define cs :: "(sock \<times> addr) list" where
    "cs = [(1, (''a'', 1)), (2, (''b'', 2)), (3, (''c'', 3))]"
  define nw :: net where "nw = \<lparr> sent = (\<lambda>s. []), closed = {} \<rparr>"
  have h1: "distinct (map fst cs)" by (simp add: cs_def)
  have h2: "1 < length cs" by (simp add: cs_def)
  have h3: "\<forall>i < length cs. (fst (cs ! i) = 2) \<longleftrightarrow> i = 1"
    by (auto simp: cs_def less_Suc_eq numeral_3_eq_3)
  note t = broadcast_prunes_failing [of cs 1 "\<lambda>s. s = 2" "[1, 2, 3]" nw, OF h1 h2 h3]
  have a: "fst (broadcast (\<lambda>s. s = 2) [1, 2, 3] (cs, nw)) = [(1, (''a'', 1)), (3, (''c'', 3))]"
    using t by (simp add: cs_def)
  have b: "get_count (broadcast (\<lambda>s. s = 2) [1, 2, 3] (cs, nw)) = 2"
    using t by (simp add: cs_def)
  have c: "2 \<in> closed (snd (broadcast (\<lambda>s. s = 2) [1, 2, 3] (cs, nw)))"
    using t by (simp add: cs_def)
  have "0 < length cs \<and> (0::nat) \<noteq> 1" "2 < length cs \<and> (2::nat) \<noteq> 1"
    by (simp_all add: cs_def)
  with t have "sent (snd (broadcast (\<lambda>s. s = 2) [1, 2, 3] (cs, nw))) (fst (cs ! 0))
        = sent nw (fst (cs ! 0)) @ [[1, 2, 3]]"
    and "sent (snd (broadcast (\<lambda>s. s = 2) [1, 2, 3] (cs, nw))) (fst (cs ! 2))
        = sent nw (fst (cs ! 2)) @ [[1, 2, 3]]"
    by blast+
  then have d: "sent (snd (broadcast (\<lambda>s. s = 2) [1, 2, 3] (cs, nw))) 1 = [[1, 2, 3]]"
    and e: "sent (snd (broadcast (\<lambda>s. s = 2) [1, 2, 3] (cs, nw))) 3 = [[1, 2, 3]]"
    by (simp_all add: cs_def nw_def)
  show ?thesis
    unfolding cs_def [symmetric] nw_def [symmetric] using a b c d e by simp
qed

section \<open>Properties of the handshake\<close>

lemma startswith_iff:
  "startswith s p \<longleftrightarrow> length p \<le> length s \<and> take (length p) s = p"
  by (induction s p rule: startswith.induct) auto

lemma startswith_occurs:
  "i \<le> length s \<Longrightarrow> startswith (drop i s) sub \<longleftrightarrow> occurs_at s sub i"
  by (auto simp: startswith_iff occurs_at_def)

lemma find_sub_Some:
  "find_sub s sub = Some i \<Longrightarrow>
     startswith (drop i s) sub \<and> i \<le> length s \<and> (\<forall>j < i. \<not> startswith (drop j s) sub)"
proof (induction s arbitrary: i)
  case Nil
  then show ?case by (simp split: if_splits)
next
  case (Cons x xs)
  show ?case
  proof (cases "startswith (x # xs) sub")
    case True
    then show ?thesis using Cons.prems by simp
  next
    case False
    then obtain k where k: "find_sub xs sub = Some k" "i = Suc k"
      using Cons.prems by auto
    from Cons.IH [OF k(1)]
    have ih: "startswith (drop k xs) sub" "k \<le> length xs" "\<forall>j < k. \<not> startswith (drop j xs) sub"
      by simp_all
    have "\<not> startswith (drop j (x # xs)) sub" if "j < i" for j
      using that False ih(3) k(2) by (cases j) auto
    then show ?thesis using ih k(2) by simp
  qed
qed

lemma find_sub_None:
  "find_sub s sub = None \<Longrightarrow> \<not> startswith (drop j s) sub"
proof (induction s arbitrary: j)
  case Nil
  then show ?case by (cases sub) (simp_all split: if_splits)
next
  case (Cons x xs)
  then have a: "\<not> startswith (x # xs) sub" and b: "find_sub xs sub = None"
    by (auto split: if_splits)
  show ?case using a Cons.IH [OF b] by (cases j) auto
qed

lemma find_from_Some:
  assumes "find_from s sub lo = Some i"
  shows "first_at s sub lo i"
proof -
  from assms have lo: "lo \<le> length s" by (simp add: find_from_def split: if_splits)
  from assms obtain k where k: "find_sub (drop lo s) sub = Some k" "i = lo + k"
    by (auto simp: find_from_def split: if_splits)
  from find_sub_Some [OF k(1)]
  have a: "startswith (drop (lo + k) s) sub"
    and b: "k \<le> length s - lo"
    and c: "\<forall>j < k. \<not> startswith (drop (lo + j) s) sub"
    by (simp_all add: add.commute)
  have il: "i \<le> length s" using b lo k(2) by simp
  have "occurs_at s sub i" using a k(2) il by (simp add: startswith_occurs)
  moreover have "\<not> occurs_at s sub j" if "lo \<le> j" "j < i" for j
  proof -
    have "j - lo < k" "lo + (j - lo) = j" using that k(2) by simp_all
    then have "\<not> startswith (drop j s) sub" using c by metis
    moreover have "j \<le> length s" using that(2) il by simp
    ultimately show ?thesis by (simp add: startswith_occurs)
  qed
  ultimately show ?thesis using k(2) by (simp add: first_at_def)
qed

lemma find_from_None:
  assumes "find_from s sub lo = None"
  shows "absent_from s sub lo"
proof (cases "lo \<le> length s")
  case False
  then show ?thesis by (simp add: absent_from_def occurs_at_def)
next
  case True
  then have n: "find_sub (drop lo s) sub = None"
    using assms by (simp add: find_from_def split: if_splits)
  have "\<not> occurs_at s sub j" if "lo \<le> j" for j
  proof (cases "j \<le> length s")
    case False
    then show ?thesis by (simp add: occurs_at_def)
  next
    case True
    have "\<not> startswith (drop (j - lo) (drop lo s)) sub" using n by (rule find_sub_None)
    then have "\<not> startswith (drop j s) sub" using that by simp
    then show ?thesis using True by (simp add: startswith_occurs)
  qed
  then show ?thesis by (simp add: absent_from_def)
qed

lemma first_at_unique: "first_at s sub lo i \<Longrightarrow> first_at s sub lo k \<Longrightarrow> i = k"
  unfolding first_at_def by (meson linorder_neqE_nat)

lemma first_at_not_absent: "first_at s sub lo i \<Longrightarrow> \<not> absent_from s sub lo"
  by (auto simp: first_at_def absent_from_def)

lemma find_from_first_at: "first_at s sub lo i \<Longrightarrow> find_from s sub lo = Some i"
proof -
  assume f: "first_at s sub lo i"
  show ?thesis
  proof (cases "find_from s sub lo")
    case None
    then show ?thesis using find_from_None first_at_not_absent f by blast
  next
    case (Some k)
    then show ?thesis using find_from_Some first_at_unique f by blast
  qed
qed

lemma find_from_absent: "absent_from s sub lo \<Longrightarrow> find_from s sub lo = None"
proof -
  assume a: "absent_from s sub lo"
  show ?thesis
  proof (cases "find_from s sub lo")
    case None
    then show ?thesis .
  next
    case (Some k)
    then show ?thesis using find_from_Some first_at_not_absent a by blast
  qed
qed

lemma scan_control_find:
  "\<forall>i \<in> set is. i < length h \<Longrightarrow>
   scan_control h is = Inr (List.find (\<lambda>i. is_control (h ! i)) is)"
  by (induction "is") simp_all

lemma scan_window:
  "scan_control h [lo..<min (length h) hi] =
     Inr (List.find (\<lambda>i. is_control (h ! i)) [lo..<min (length h) hi])"
  by (rule scan_control_find) simp

lemma find_first_control:
  assumes "first_control h lo hi c"
  shows "List.find (\<lambda>i. is_control (h ! i)) [lo..<min (length h) hi] = Some c"
proof -
  from assms have c: "lo \<le> c" "c < hi" "c < length h" "is_control (h ! c)"
    and m: "\<forall>j. lo \<le> j \<and> j < c \<longrightarrow> \<not> is_control (h ! j)"
    by (simp_all add: first_control_def)
  have "c - lo < length [lo..<min (length h) hi]" using c by simp
  moreover have "[lo..<min (length h) hi] ! (c - lo) = c" using c by simp
  moreover have "\<forall>j < c - lo. \<not> is_control (h ! ([lo..<min (length h) hi] ! j))"
  proof (intro allI impI)
    fix j assume j: "j < c - lo"
    then have "lo + j < c" by arith
    then have "lo + j < min (length h) hi" using c by simp
    then have "[lo..<min (length h) hi] ! j = lo + j" by simp
    moreover have "\<not> is_control (h ! (lo + j))" using m \<open>lo + j < c\<close> by simp
    ultimately show "\<not> is_control (h ! ([lo..<min (length h) hi] ! j))" by simp
  qed
  ultimately show ?thesis using c(4) unfolding find_Some_iff by metis
qed

lemma find_Some_mem: "List.find P xs = Some x \<Longrightarrow> x \<in> set xs"
  by (induction xs) (auto split: if_splits)

lemma find_no_control:
  assumes "no_control h lo hi"
  shows "List.find (\<lambda>i. is_control (h ! i)) [lo..<min (length h) hi] = None"
  using assms unfolding find_None_iff no_control_def by auto

lemma occurs_at_suffix:
  "occurs_at s (a @ b) j \<Longrightarrow> occurs_at s b (j + length a)"
proof -
  assume o: "occurs_at s (a @ b) j"
  then have l: "j + (length a + length b) \<le> length s"
    and t: "take (length a + length b) (drop j s) = a @ b"
    by (simp_all add: occurs_at_def)
  have "take (length b) (drop (length a) (take (length a + length b) (drop j s))) = b"
    unfolding t by simp
  then have "take (length b) (drop (j + length a) s) = b"
    by (simp add: drop_take add.commute)
  then show ?thesis using l by (simp add: occurs_at_def)
qed

lemma absent_LF_CRLF: "absent_from h LF 0 \<Longrightarrow> absent_from h CRLF 0"
  unfolding absent_from_def
  using occurs_at_suffix [of h "[CHR 0x0D]" LF] by (auto simp: CRLF_def LF_def)

lemma absent_CRLF_CRLFCRLF: "absent_from h CRLF 0 \<Longrightarrow> absent_from h CRLFCRLF 0"
  unfolding absent_from_def
  using occurs_at_suffix [of h CRLF CRLF] by (auto simp: CRLFCRLF_def)

lemma line_end_found:
  "line_end h s \<Longrightarrow>
   (case find_from h CRLF 0 of None \<Rightarrow> find_from h LF 0 | Some e \<Rightarrow> Some e) = Some s"
  by (auto simp: line_end_def find_from_first_at find_from_absent)

lemma header_end_marker:
  "first_at h CRLFCRLF 0 e \<Longrightarrow> header_end_of h = Inr (e + 4)"
  by (simp add: header_end_of_def find_from_first_at)

lemma header_end_sync:
  "absent_from h CRLFCRLF 0 \<Longrightarrow> line_end h s \<Longrightarrow>
   first_at h [SYNC_CHAR] (s + 2) d \<Longrightarrow> header_end_of h = Inr d"
  by (simp add: header_end_of_def line_end_found find_from_first_at find_from_absent)

lemma header_end_control:
  "absent_from h CRLFCRLF 0 \<Longrightarrow> line_end h s \<Longrightarrow>
   absent_from h [SYNC_CHAR] (s + 2) \<Longrightarrow> first_control h (s + 2) (s + 200) c \<Longrightarrow>
   header_end_of h = Inr c"
  by (simp add: header_end_of_def line_end_found find_from_absent scan_window
      find_first_control)

lemma header_end_whole:
  "absent_from h CRLFCRLF 0 \<Longrightarrow> line_end h s \<Longrightarrow>
   absent_from h [SYNC_CHAR] (s + 2) \<Longrightarrow> no_control h (s + 2) (s + 200) \<Longrightarrow>
   header_end_of h = Inr (length h)"
  by (simp add: header_end_of_def line_end_found find_from_absent scan_window
      find_no_control)

lemma header_end_no_line:
  "absent_from h LF 0 \<Longrightarrow> header_end_of h = Inr (length h)"
  using absent_LF_CRLF [of h] absent_CRLF_CRLFCRLF [of h]
  by (simp add: header_end_of_def find_from_absent)

lemma to_rover_end_marker:
  "first_at h CRLFCRLF 0 e \<Longrightarrow> to_rover_header_end h = e + 4"
  by (simp add: to_rover_header_end_def find_from_first_at)

lemma to_rover_end_sync:
  "absent_from h CRLFCRLF 0 \<Longrightarrow> line_end h s \<Longrightarrow>
   first_at h [SYNC_CHAR] (s + 2) d \<Longrightarrow> to_rover_header_end h = d"
  by (simp add: to_rover_header_end_def line_end_found find_from_first_at find_from_absent)

lemma to_rover_end_whole:
  "absent_from h CRLFCRLF 0 \<Longrightarrow> line_end h s \<Longrightarrow>
   absent_from h [SYNC_CHAR] (s + 2) \<Longrightarrow> to_rover_header_end h = length h"
  by (simp add: to_rover_header_end_def line_end_found find_from_absent)

lemma to_rover_end_no_line:
  "absent_from h LF 0 \<Longrightarrow> to_rover_header_end h = length h"
  using absent_LF_CRLF [of h] absent_CRLF_CRLFCRLF [of h]
  by (simp add: to_rover_header_end_def find_from_absent)

lemma to_rover_success:
  "connect_ntrip_to_rover h = Inr bd \<Longrightarrow> bd = drop (to_rover_header_end h) h"
  by (auto simp: connect_ntrip_to_rover_def Let_def split: if_splits)

lemma header_end_total: "\<exists>sp. header_end_of h = Inr sp \<and> sp \<le> length h"
proof (cases "find_from h CRLFCRLF 0")
  case (Some e)
  then have "occurs_at h CRLFCRLF e" using find_from_Some by (auto simp: first_at_def)
  then have "e + 4 \<le> length h" by (simp add: occurs_at_def CRLFCRLF_def CRLF_def)
  then show ?thesis using Some by (simp add: header_end_of_def)
next
  case None
  note n0 = None
  define status_end where "status_end = (case find_from h CRLF 0 of
                              None \<Rightarrow> find_from h LF 0
                            | Some e \<Rightarrow> Some e)"
  show ?thesis
  proof (cases status_end)
    case None
    then show ?thesis using n0 by (simp add: header_end_of_def status_end_def [symmetric])
  next
    case (Some se)
    note se = Some
    show ?thesis
    proof (cases "find_from h [SYNC_CHAR] (se + 2)")
      case (Some d)
      then have "occurs_at h [SYNC_CHAR] d" using find_from_Some by (auto simp: first_at_def)
      then have "d \<le> length h" by (simp add: occurs_at_def)
      then show ?thesis using n0 se Some
        by (simp add: header_end_of_def status_end_def [symmetric])
    next
      case None
      note nd = None
      show ?thesis
      proof (cases "List.find (\<lambda>i. is_control (h ! i)) [se + 2..<min (length h) (se + 200)]")
        case None
        then show ?thesis using n0 se nd
          by (simp add: header_end_of_def status_end_def [symmetric] scan_window)
      next
        case (Some c)
        then have "c \<in> set [se + 2..<min (length h) (se + 200)]"
          by (rule find_Some_mem)
        then have "c \<le> length h" by simp
        then show ?thesis using n0 se nd Some
          by (simp add: header_end_of_def status_end_def [symmetric] scan_window)
      qed
    qed
  qed
qed

lemma check_success:
  assumes "check_response_header h = Inr (ht, bd)"
  obtains sp where "header_end_of h = Inr sp" "sp \<le> length h" "ht = take sp h" "bd = drop sp h"
proof -
  obtain sp where sp: "header_end_of h = Inr sp" "sp \<le> length h"
    using header_end_total by blast
  from assms have "ht = take sp h" "bd = drop sp h"
    by (auto simp: check_response_header_def sp Let_def split: if_splits)
  then show ?thesis using sp that by blast
qed

lemma find_first_control_conv:
  assumes "lo \<le> c" "c < hi" "c < length h" "is_control (h ! c)"
    and "\<And>j. lo \<le> j \<Longrightarrow> j < c \<Longrightarrow> \<not> is_control (h ! j)"
  shows "first_control h lo hi c"
  using assms by (simp add: first_control_def)

text \<open>
  Claim C4, as stated, fails.  The first response below is accepted as success, has no
  CRLFCRLF marker and no sync byte, and its first control byte after the status line is at
  position 212; \<open>check_response_header\<close> keeps the whole buffer as header and returns an
  empty payload, because it looks for a control byte only in the positions below
  \<open>status_end + 200\<close>.  The second response has its first control byte at position 17;
  \<open>connect_ntrip\<close> of ntrip\_to\_rover.py, which does not look for control bytes at all,
  returns an empty payload.
\<close>

theorem control_byte_window_counterexample:
  "check_response_header
     (''ICY 200 OK'' @ CRLF @ replicate 200 (CHR ''A'') @ [CHR 0x01, CHR ''B''])
     = Inr (''ICY 200 OK'' @ CRLF @ replicate 200 (CHR ''A'') @ [CHR 0x01, CHR ''B''], []) \<and>
   absent_from (''ICY 200 OK'' @ CRLF @ replicate 200 (CHR ''A'') @ [CHR 0x01, CHR ''B''])
     CRLFCRLF 0 \<and>
   first_at (''ICY 200 OK'' @ CRLF @ replicate 200 (CHR ''A'') @ [CHR 0x01, CHR ''B''])
     CRLF 0 10 \<and>
   absent_from (''ICY 200 OK'' @ CRLF @ replicate 200 (CHR ''A'') @ [CHR 0x01, CHR ''B''])
     [SYNC_CHAR] 12 \<and>
   first_control (''ICY 200 OK'' @ CRLF @ replicate 200 (CHR ''A'') @ [CHR 0x01, CHR ''B''])
     12 (length (''ICY 200 OK'' @ CRLF @ replicate 200 (CHR ''A'') @ [CHR 0x01, CHR ''B'']))
     212 \<and>
   length (''ICY 200 OK'' @ CRLF @ replicate 200 (CHR ''A'') @ [CHR 0x01, CHR ''B'']) = 214 \<and>
   connect_ntrip_to_rover (''ICY 200 OK'' @ CRLF @ ''AAAAA'' @ [CHR 0x01] @ ''rest'') = Inr [] \<and>
   absent_from (''ICY 200 OK'' @ CRLF @ ''AAAAA'' @ [CHR 0x01] @ ''rest'') CRLFCRLF 0 \<and>
   first_at (''ICY 200 OK'' @ CRLF @ ''AAAAA'' @ [CHR 0x01] @ ''rest'') CRLF 0 10 \<and>
   absent_from (''ICY 200 OK'' @ CRLF @ ''AAAAA'' @ [CHR 0x01] @ ''rest'') [SYNC_CHAR] 12 \<and>
   first_control (''ICY 200 OK'' @ CRLF @ ''AAAAA'' @ [CHR 0x01] @ ''rest'')
     12 (length (''ICY 200 OK'' @ CRLF @ ''AAAAA'' @ [CHR 0x01] @ ''rest'')) 17 \<and>
   drop 17 (''ICY 200 OK'' @ CRLF @ ''AAAAA'' @ [CHR 0x01] @ ''rest'') = CHR 0x01 # ''rest''"
proof -
  define h where "h = ''ICY 200 OK'' @ CRLF @ replicate 200 (CHR ''A'') @ [CHR 0x01, CHR ''B'']"
  have chk: "check_response_header h = Inr (h, [])"
    unfolding h_def by code_simp
  have "find_from h CRLFCRLF 0 = None" unfolding h_def by code_simp
  then have a: "absent_from h CRLFCRLF 0" by (rule find_from_None)
  have "find_from h CRLF 0 = Some 10" unfolding h_def by code_simp
  then have b: "first_at h CRLF 0 10" by (rule find_from_Some)
  have "find_from h [SYNC_CHAR] 12 = None" unfolding h_def by code_simp
  then have c: "absent_from h [SYNC_CHAR] 12" by (rule find_from_None)
  have len: "length h = 214" by (simp add: h_def CRLF_def)
  have c212: "is_control (h ! 212)"
    by (simp add: h_def CRLF_def nth_append is_control_def)
  have nc: "\<not> is_control (h ! j)" if "12 \<le> j" "j < 212" for j
  proof -
    have "h ! j = CHR ''A''" using that by (simp add: h_def CRLF_def nth_append)
    then show ?thesis by (simp add: is_control_def)
  qed
  have d: "first_control h 12 (length h) 212"
    using c212 nc by (intro find_first_control_conv) (simp_all add: len)
  define g where "g = ''ICY 200 OK'' @ CRLF @ ''AAAAA'' @ [CHR 0x01] @ ''rest''"
  have rov: "connect_ntrip_to_rover g = Inr []"
    unfolding g_def by code_simp
  have "find_from g CRLFCRLF 0 = None" unfolding g_def by code_simp
  then have ga: "absent_from g CRLFCRLF 0" by (rule find_from_None)
  have "find_from g CRLF 0 = Some 10" unfolding g_def by code_simp
  then have gb: "first_at g CRLF 0 10" by (rule find_from_Some)
  have "find_from g [SYNC_CHAR] 12 = None" unfolding g_def by code_simp
  then have gc: "absent_from g [SYNC_CHAR] 12" by (rule find_from_None)
  have glen: "length g = 22" by (simp add: g_def CRLF_def)
  have g17: "is_control (g ! 17)"
    by (simp add: g_def CRLF_def nth_append is_control_def)
  have gnc: "\<not> is_control (g ! j)" if "12 \<le> j" "j < 17" for j
  proof -
    have "j = 12 \<or> j = 13 \<or> j = 14 \<or> j = 15 \<or> j = 16" using that by arith
    then have "g ! j = CHR ''A''" by (auto simp: g_def CRLF_def nth_append)
    then show ?thesis by (simp add: is_control_def)
  qed
  have gd: "first_control g 12 (length g) 17"
    using g17 gnc by (intro find_first_control_conv) (simp_all add: glen)
  have ge: "drop 17 g = CHR 0x01 # ''rest''" by (simp add: g_def CRLF_def)
  show ?thesis
    unfolding h_def [symmetric] g_def [symmetric]
    by (intro conjI) (rule chk, rule a, rule b, rule c, rule d, rule len, rule rov,
      rule ga, rule gb, rule gc, rule gd, rule ge)
qed

text \<open>
  Claim C4, amended.  For a response accepted as success by \<open>check_response_header\<close> the
  header is a prefix of the buffer and the payload is the rest, and the split point (the
  length of the header) is: just after the first CRLFCRLF when there is one; otherwise,
  with \<open>s\<close> the end of the first line (\<open>line_end\<close>), the position of the first sync byte
  at or after \<open>s + 2\<close>; otherwise the position of the first control byte among the
  positions \<open>s + 2\<close> up to \<open>s + 199\<close>; otherwise the end of the buffer, the payload being
  empty.  For a response accepted as success by \<open>connect_ntrip\<close> of ntrip\_to\_rover.py
  the payload starts just after the first CRLFCRLF when there is one; otherwise at the
  first sync byte at or after \<open>s + 2\<close>; otherwise the payload is empty: that function has
  no control-byte step.  For both, a buffer with no line feed at all has an empty payload.
  (Nothing is said of a buffer without CRLF whose first LF is directly followed by a sync
  byte or a control byte.)
\<close>

theorem header_payload_split:
  "(check_response_header h = Inr (ht, bd) \<longrightarrow>
      h = ht @ bd \<and>
      (first_at h CRLFCRLF 0 e \<longrightarrow> length ht = e + 4) \<and>
      (absent_from h CRLFCRLF 0 \<and> line_end h s \<and> first_at h [SYNC_CHAR] (s + 2) d
         \<longrightarrow> length ht = d) \<and>
      (absent_from h CRLFCRLF 0 \<and> line_end h s \<and> absent_from h [SYNC_CHAR] (s + 2) \<and>
       first_control h (s + 2) (s + 200) c \<longrightarrow> length ht = c) \<and>
      (absent_from h CRLFCRLF 0 \<and> line_end h s \<and> absent_from h [SYNC_CHAR] (s + 2) \<and>
       no_control h (s + 2) (s + 200) \<longrightarrow> ht = h \<and> bd = []) \<and>
      (absent_from h LF 0 \<longrightarrow> ht = h \<and> bd = [])) \<and>
   (connect_ntrip_to_rover h = Inr bd' \<longrightarrow>
      (first_at h CRLFCRLF 0 e \<longrightarrow> bd' = drop (e + 4) h) \<and>
      (absent_from h CRLFCRLF 0 \<and> line_end h s \<and> first_at h [SYNC_CHAR] (s + 2) d
         \<longrightarrow> bd' = drop d h) \<and>
      (absent_from h CRLFCRLF 0 \<and> line_end h s \<and> absent_from h [SYNC_CHAR] (s + 2)
         \<longrightarrow> bd' = []) \<and>
      (absent_from h LF 0 \<longrightarrow> bd' = []))"
proof (intro conjI impI)
  assume chk: "check_response_header h = Inr (ht, bd)"
  then obtain sp where sp: "header_end_of h = Inr sp" "sp \<le> length h"
    "ht = take sp h" "bd = drop sp h" by (rule check_success)
  have len: "length ht = sp" using sp by simp
  show "h = ht @ bd" using sp by simp
  { assume "first_at h CRLFCRLF 0 e"
    then show "length ht = e + 4" using header_end_marker [of h e] sp(1) len by simp }
  { assume "absent_from h CRLFCRLF 0 \<and> line_end h s \<and> first_at h [SYNC_CHAR] (s + 2) d"
    then show "length ht = d" using header_end_sync [of h s d] sp(1) len by simp }
  { assume "absent_from h CRLFCRLF 0 \<and> line_end h s \<and> absent_from h [SYNC_CHAR] (s + 2) \<and>
       first_control h (s + 2) (s + 200) c"
    then show "length ht = c" using header_end_control [of h s c] sp(1) len by simp }
  { assume a: "absent_from h CRLFCRLF 0 \<and> line_end h s \<and> absent_from h [SYNC_CHAR] (s + 2) \<and>
       no_control h (s + 2) (s + 200)"
    then have "sp = length h" using header_end_whole [of h s] sp(1) by simp
    then show "ht = h" and "bd = []" using sp by simp_all }
  { assume "absent_from h LF 0"
    then have "sp = length h" using header_end_no_line [of h] sp(1) by simp
    then show "ht = h" and "bd = []" using sp by simp_all }
next
  assume "connect_ntrip_to_rover h = Inr bd'"
  then have bd: "bd' = drop (to_rover_header_end h) h" by (rule to_rover_success)
  { assume "first_at h CRLFCRLF 0 e"
    then show "bd' = drop (e + 4) h" using to_rover_end_marker [of h e] bd by simp }
  { assume "absent_from h CRLFCRLF 0 \<and> line_end h s \<and> first_at h [SYNC_CHAR] (s + 2) d"
    then show "bd' = drop d h" using to_rover_end_sync [of h s d] bd by simp }
  { assume "absent_from h CRLFCRLF 0 \<and> line_end h s \<and> absent_from h [SYNC_CHAR] (s + 2)"
    then show "bd' = []" using to_rover_end_whole [of h s] bd by simp }
  { assume "absent_from h LF 0"
    then show "bd' = []" using to_rover_end_no_line [of h] bd by simp }
qed

theorem header_payload_split_witness:
  "check_response_header (''ICY 200 OK'' @ CRLF @ [SYNC_CHAR, CHR 0x00, CHR 0x13, CHR 0x3E])
     = Inr (''ICY 200 OK'' @ CRLF, [SYNC_CHAR, CHR 0x00, CHR 0x13, CHR 0x3E]) \<and>
   connect_ntrip_to_rover (''ICY 200 OK'' @ CRLF @ [SYNC_CHAR, CHR 0x00, CHR 0x13, CHR 0x3E])
     = Inr [SYNC_CHAR, CHR 0x00, CHR 0x13, CHR 0x3E] \<and>
   absent_from (''ICY 200 OK'' @ CRLF @ [SYNC_CHAR, CHR 0x00, CHR 0x13, CHR 0x3E]) CRLFCRLF 0 \<and>
   line_end (''ICY 200 OK'' @ CRLF @ [SYNC_CHAR, CHR 0x00, CHR 0x13, CHR 0x3E]) 10 \<and>
   first_at (''ICY 200 OK'' @ CRLF @ [SYNC_CHAR, CHR 0x00, CHR 0x13, CHR 0x3E]) [SYNC_CHAR] 12 12 \<and>
   length (''ICY 200 OK'' @ CRLF) = 12 \<and>
   [SYNC_CHAR, CHR 0x00, CHR 0x13, CHR 0x3E] =
     drop 12 (''ICY 200 OK'' @ CRLF @ [SYNC_CHAR, CHR 0x00, CHR 0x13, CHR 0x3E])"
proof -
  define h where "h = ''ICY 200 OK'' @ CRLF @ [SYNC_CHAR, CHR 0x00, CHR 0x13, CHR 0x3E]"
  have chk: "check_response_header h =
      Inr (''ICY 200 OK'' @ CRLF, [SYNC_CHAR, CHR 0x00, CHR 0x13, CHR 0x3E])"
    unfolding h_def by code_simp
  have rov: "connect_ntrip_to_rover h = Inr [SYNC_CHAR, CHR 0x00, CHR 0x13, CHR 0x3E]"
    unfolding h_def by code_simp
  have "find_from h CRLFCRLF 0 = None" unfolding h_def by code_simp
  then have a: "absent_from h CRLFCRLF 0" by (rule find_from_None)
  have "find_from h CRLF 0 = Some 10" unfolding h_def by code_simp
  then have "first_at h CRLF 0 10" by (rule find_from_Some)
  then have b: "line_end h 10" by (simp add: line_end_def)
  have "find_from h [SYNC_CHAR] 12 = Some 12" unfolding h_def by code_simp
  then have c: "first_at h [SYNC_CHAR] (10 + 2) 12" using find_from_Some by fastforce
  note t = header_payload_split [of h "''ICY 200 OK'' @ CRLF"
      "[SYNC_CHAR, CHR 0x00, CHR 0x13, CHR 0x3E]" 0 10 12 0
      "[SYNC_CHAR, CHR 0x00, CHR 0x13, CHR 0x3E]"]
  from t chk a b c have l: "length (''ICY 200 OK'' @ CRLF) = 12" by blast
  from t rov a b c have r: "[SYNC_CHAR, CHR 0x00, CHR 0x13, CHR 0x3E] = drop 12 h" by blast
  from c have c': "first_at h [SYNC_CHAR] 12 12" by simp
  show ?thesis
    unfolding h_def [symmetric]
    by (intro conjI) (rule chk, rule rov, rule a, rule b, rule c', rule l, rule r)
qed

lemma check_not_success:
  "\<not> is_success (status_line h) \<Longrightarrow>
   check_response_header h =
     (if contains (status_line h) ''401'' \<or> contains (status_line h) ''403'' then Inl auth_failed
      else if contains (status_line h) ''404'' then Inl mountpoint_not_found
      else if contains (status_line h) ''500'' then Inl server_error
      else Inl (unexpected_response (status_line h)))"
proof -
  obtain sp where sp: "header_end_of h = Inr sp" using header_end_total by blast
  assume "\<not> is_success (status_line h)"
  then show ?thesis by (simp add: check_response_header_def status_line_def sp Let_def)
qed

text \<open>
  Claim C5, as stated, fails: the success test comes first, so a status line that holds
  both a success token and \<open>401\<close> is classified as success.
\<close>

theorem success_with_401_counterexample:
  "contains (status_line (''ICY 200 OK 401'' @ CRLF @ CRLF)) ''401'' \<and>
   status_line (''ICY 200 OK 401'' @ CRLF @ CRLF) = ''ICY 200 OK 401'' \<and>
   check_response_header (''ICY 200 OK 401'' @ CRLF @ CRLF) =
     Inr (''ICY 200 OK 401'' @ CRLF @ CRLF, [])"
  by code_simp

text \<open>
  Claim C5, amended.  A response whose status line contains \<open>401\<close> and is not a success
  line (it neither starts with \<open>ICY 200\<close> nor contains \<open> 200 \<close>) raises the
  authentication-failure error; nothing is returned.
\<close>

theorem auth_failure_401:
  assumes "contains (status_line h) ''401''" and "\<not> is_success (status_line h)"
  shows "check_response_header h = Inl auth_failed"
  using assms by (simp add: check_not_success)

theorem auth_failure_401_witness:
  "contains (status_line (''HTTP/1.0 401 Unauthorized'' @ CRLF @ CRLF)) ''401'' \<and>
   \<not> is_success (status_line (''HTTP/1.0 401 Unauthorized'' @ CRLF @ CRLF)) \<and>
   check_response_header (''HTTP/1.0 401 Unauthorized'' @ CRLF @ CRLF) = Inl auth_failed"
proof -
  have a: "contains (status_line (''HTTP/1.0 401 Unauthorized'' @ CRLF @ CRLF)) ''401''"
    by code_simp
  have b: "\<not> is_success (status_line (''HTTP/1.0 401 Unauthorized'' @ CRLF @ CRLF))"
    by code_simp
  from auth_failure_401 [OF a b] a b show ?thesis by simp
qed

text \<open>
  Claim C10 (empty response).  The empty buffer has the empty status line and raises the
  unexpected-response \<open>ConnectionError\<close> carrying it: the result is neither a success
  nor an \<open>IndexError\<close>.
\<close>

theorem empty_response:
  "check_response_header [] = Inl (unexpected_response []) \<and>
   unexpected_response [] = ConnectionError ''Unexpected response from server: '' \<and>
   status_line [] = []"
  by (simp add: check_response_header_def header_end_of_def find_from_def CRLFCRLF_def CRLF_def
      LF_def status_line_def status_line_of_def split_first_def contains_def is_success_def
      unexpected_response_def)

lemma read_loop_bound:
  "\<forall>c. Data c \<in> set script \<longrightarrow> length c \<le> 1024 \<Longrightarrow> length header \<le> max_header - 1 + 1024 \<Longrightarrow>
   (\<forall>h \<in> set (fst (read_loop header script)). length h \<le> max_header - 1 + 1024) \<and>
   (\<forall>h. snd (read_loop header script) = Inr h \<longrightarrow> length h \<le> max_header - 1 + 1024)"
proof (induction header script rule: read_loop.induct)
  case (1 header)
  then show ?case by simp
next
  case (2 header script)
  then show ?case by simp
next
  case (3 header chunk script)
  show ?case
  proof (cases "length header < max_header \<and> chunk \<noteq> []")
    case False
    then show ?thesis using "3.prems"(2) by auto
  next
    case True
    define header' where "header' = header @ chunk"
    have "length chunk \<le> 1024" using "3.prems"(1) by simp
    then have len: "length header' \<le> max_header - 1 + 1024"
      using True by (simp add: header'_def)
    show ?thesis
    proof (cases "contains header' CRLFCRLF \<or> (has_200 header' \<and> length header' > 128)")
      case stop: True
      then have "read_loop header (Data chunk # script) = ([header'], Inr header')"
        using True by (auto simp: header'_def Let_def)
      then show ?thesis using len by simp
    next
      case go: False
      then have r: "read_loop header (Data chunk # script) =
          (header' # fst (read_loop header' script), snd (read_loop header' script))"
        using True by (auto simp: header'_def Let_def)
      have "(\<forall>h \<in> set (fst (read_loop header' script)). length h \<le> max_header - 1 + 1024) \<and>
        (\<forall>h. snd (read_loop header' script) = Inr h \<longrightarrow> length h \<le> max_header - 1 + 1024)"
        unfolding header'_def
        using True go "3.prems"(1) len
        by (intro "3.IH") (auto simp: header'_def)
      then show ?thesis using len unfolding r by simp
    qed
  qed
qed

lemma contains_set: "contains s sub \<Longrightarrow> set sub \<subseteq> set s"
proof -
  assume "contains s sub"
  then obtain i where "find_sub s sub = Some i" by (auto simp: contains_def)
  then have "startswith (drop i s) sub" by (simp add: find_sub_Some)
  then have "take (length sub) (drop i s) = sub" by (simp add: startswith_iff)
  then have "set sub \<subseteq> set (drop i s)" by (metis set_take_subset)
  then show ?thesis using set_drop_subset by fastforce
qed

lemma all_A_continues:
  "\<not> contains (replicate n (CHR ''A'')) CRLFCRLF \<and> \<not> has_200 (replicate n (CHR ''A''))"
proof -
  have "\<not> set CRLFCRLF \<subseteq> set (replicate n (CHR ''A''))"
    by (auto simp: CRLFCRLF_def CRLF_def)
  moreover have "\<not> set ''ICY 200'' \<subseteq> set (replicate n (CHR ''A''))" by auto
  moreover have "\<not> set '' 200 '' \<subseteq> set (replicate n (CHR ''A''))" by auto
  ultimately show ?thesis using contains_set unfolding has_200_def by blast
qed

lemma read_all_A:
  "k = 0 \<or> n + 1024 * (k - 1) < max_header \<Longrightarrow>
   snd (read_loop (replicate n (CHR ''A'')) (replicate k (Data (replicate 1024 (CHR ''A''))))) =
     Inr (replicate (n + 1024 * k) (CHR ''A''))"
proof (induction k arbitrary: n)
  case 0
  then show ?case by simp
next
  case (Suc k)
  then have lt: "n < max_header" by simp
  have app: "replicate n (CHR ''A'') @ replicate 1024 (CHR ''A'') = replicate (n + 1024) (CHR ''A'')"
    by (simp add: replicate_add)
  have ne: "replicate 1024 (CHR ''A'') \<noteq> []" by simp
  have step: "read_loop (replicate n (CHR ''A''))
        (Data (replicate 1024 (CHR ''A'')) # replicate k (Data (replicate 1024 (CHR ''A'')))) =
      (replicate (n + 1024) (CHR ''A'') #
         fst (read_loop (replicate (n + 1024) (CHR ''A''))
               (replicate k (Data (replicate 1024 (CHR ''A''))))),
       snd (read_loop (replicate (n + 1024) (CHR ''A''))
               (replicate k (Data (replicate 1024 (CHR ''A''))))))"
    using lt ne all_A_continues [of "n + 1024"]
    by (simp only: read_loop.simps Let_def app length_replicate if_True if_False simp_thms)
  have "k = 0 \<or> (n + 1024) + 1024 * (k - 1) < max_header"
    using Suc.prems by (cases k) auto
  from Suc.IH [OF this] show ?case
    unfolding replicate_Suc step by (simp add: add.assoc)
qed

text \<open>
  Claim C9, as stated, fails.  The loop tests the cap before each \<open>recv(1024)\<close>, not
  after it: one byte followed by 64 full reads leaves 65537 bytes in the header buffer.
\<close>

theorem header_cap_counterexample:
  "snd (read_response (Data ''A'' # replicate 64 (Data (replicate 1024 (CHR ''A''))))) =
     Inr (replicate 65537 (CHR ''A'')) \<and>
   65536 < length (replicate 65537 (CHR ''A''))"
proof -
  have one: "''A'' = replicate 1 (CHR ''A'')" by simp
  have "\<not> contains ''A'' CRLFCRLF \<and> \<not> has_200 ''A''"
    using all_A_continues [of 1] by simp
  then have "snd (read_response (Data ''A'' # replicate 64 (Data (replicate 1024 (CHR ''A''))))) =
      snd (read_loop (replicate 1 (CHR ''A'')) (replicate 64 (Data (replicate 1024 (CHR ''A'')))))"
    by (simp add: read_response_def Let_def max_header_def)
  also have "\<dots> = Inr (replicate (1 + 1024 * 64) (CHR ''A''))"
    by (rule read_all_A) (simp add: max_header_def)
  finally show ?thesis by simp
qed

text \<open>
  Claim C9, amended.  When every \<open>recv(1024)\<close> returns at most 1024 bytes, every value the
  header buffer takes, and the header the loop ends with, is at most \<open>65535 + 1024\<close> bytes
  long: a read happens only while the buffer is below the cap of 65536 bytes.
\<close>

theorem header_buffer_bound:
  assumes "\<forall>c. Data c \<in> set script \<longrightarrow> length c \<le> 1024"
  shows "(\<forall>h \<in> set (fst (read_response script)). length h \<le> 65535 + 1024) \<and>
         (\<forall>h. snd (read_response script) = Inr h \<longrightarrow> length h \<le> 65535 + 1024)"
  using read_loop_bound [OF assms, of "[]"]
  by (simp add: read_response_def Let_def max_header_def)

theorem header_buffer_bound_witness:
  "snd (read_response [Data ''ICY 200 OK'', Data (CRLF @ CRLF @ ''abc'')]) =
     Inr (''ICY 200 OK'' @ CRLF @ CRLF @ ''abc'') \<and>
   length (''ICY 200 OK'' @ CRLF @ CRLF @ ''abc'') \<le> 65535 + 1024"
proof -
  have h: "\<forall>c. Data c \<in> set [Data ''ICY 200 OK'', Data (CRLF @ CRLF @ ''abc'')]
      \<longrightarrow> length c \<le> 1024"
    by (auto simp: CRLF_def)
  have r: "snd (read_response [Data ''ICY 200 OK'', Data (CRLF @ CRLF @ ''abc'')]) =
     Inr (''ICY 200 OK'' @ CRLF @ CRLF @ ''abc'')"
    by (simp add: read_response_def max_header_def has_200_def contains_def Let_def
        CRLFCRLF_def CRLF_def)
  from header_buffer_bound [OF h] r show ?thesis by blast
qed

end
